theory Spec2Isabelle
  imports
    Main
    "HOL-Library.Sublist"
    "HOL-Library.Multiset"
    "HOL-Library.FSet"
    "HOL-Library.Log_Nat"
begin

section \<open>Prompt generation for Bengali--Sylheti translation: the embedded program\<close>

subsection \<open>Strings\<close>

text \<open>
  A Python \<open>str\<close> is a sequence of Unicode code points; the tokenizer's character class
  lies beyond the 8-bit range, so a string is a list of code points, not a \<open>char list\<close>.
  \<open>str\<close> turns an ASCII literal of the source into such a list.  Python's substring test
  \<open>a in b\<close> on strings is \<^const>\<open>sublist\<close> \<open>a b\<close>.
\<close>

type_synonym pystr = "nat list"

definition str :: "string \<Rightarrow> pystr" where
  "str s = map of_char s"

definition nl :: pystr where
  "nl = [10]"

text \<open>
  \<open>str.strip()\<close> without argument removes leading and trailing whitespace, the code
  points on which \<open>str.isspace\<close> holds.
\<close>

definition is_space :: "nat \<Rightarrow> bool" where
  "is_space c \<longleftrightarrow>
     (0x09 \<le> c \<and> c \<le> 0x0D) \<or> (0x1C \<le> c \<and> c \<le> 0x20) \<or> c = 0x85 \<or> c = 0xA0 \<or>
     c = 0x1680 \<or> (0x2000 \<le> c \<and> c \<le> 0x200A) \<or> c = 0x2028 \<or> c = 0x2029 \<or>
     c = 0x202F \<or> c = 0x205F \<or> c = 0x3000"

definition strip :: "pystr \<Rightarrow> pystr" where
  "strip s = rev (dropWhile is_space (rev (dropWhile is_space s)))"

text \<open>
  \<open>str.lower()\<close> follows the Unicode case tables of the interpreter, which are not part of
  the repository: every function that lower-cases takes the operation as its parameter
  \<open>lower\<close>, and nothing is assumed about it.  \<open>lower_ascii\<close> is the instance used to run the
  functions on concrete texts; it agrees with \<open>str.lower()\<close> on every string whose cased
  characters are ASCII letters (Bengali script has no case).
\<close>

definition lower_ascii :: "pystr \<Rightarrow> pystr" where
  "lower_ascii s = map (\<lambda>c. if 0x41 \<le> c \<and> c \<le> 0x5A then c + 0x20 else c) s"

subsection \<open>Tokenizer\<close>

text \<open>
  \<open>re.findall\<close> with the pattern "one or more characters of the class U+0980 to U+09FF":
  scanning from the left, each match starts at the first character of the class and, the
  quantifier being greedy, takes all the class characters that follow; the scan resumes
  after the match.
\<close>

definition is_bangla :: "nat \<Rightarrow> bool" where
  "is_bangla c \<longleftrightarrow> 0x0980 \<le> c \<and> c \<le> 0x09FF"

function re_findall_bangla :: "pystr \<Rightarrow> pystr list" where
  "re_findall_bangla [] = []"
| "re_findall_bangla (c # cs) =
     (if is_bangla c
      then (c # takeWhile is_bangla cs) # re_findall_bangla (dropWhile is_bangla cs)
      else re_findall_bangla cs)"
  by pat_completeness auto
termination
  by (relation "measure length") (auto simp: length_dropWhile_le less_Suc_eq_le)

text \<open>\<open>tokenize_sentence\<close> of the prompt generator and \<open>tokenize_bangla\<close> of the glossary
  retriever.\<close>

definition tokenize_sentence :: "pystr \<Rightarrow> pystr list" where
  "tokenize_sentence sentence = re_findall_bangla sentence"

definition tokenize_bangla :: "pystr \<Rightarrow> pystr list" where
  "tokenize_bangla sentence = re_findall_bangla sentence"

text \<open>
  The specification's wording, for comparison: a token is a maximal run of script
  characters, that is a slice \<open>t[i:j]\<close>, \<open>i < j\<close>, of script characters only that has no
  script character directly before or after it; the tokens are listed by position.
\<close>

definition is_maximal_run :: "pystr \<Rightarrow> nat \<Rightarrow> nat \<Rightarrow> bool" where
  "is_maximal_run t i j \<longleftrightarrow>
     i < j \<and> j \<le> length t \<and> (\<forall>k\<in>{i..<j}. is_bangla (t ! k)) \<and>
     (i = 0 \<or> \<not> is_bangla (t ! (i - 1))) \<and> (j = length t \<or> \<not> is_bangla (t ! j))"

definition maximal_runs :: "pystr \<Rightarrow> pystr list" where
  "maximal_runs t =
     [take (j - i) (drop i t).
        i \<leftarrow> [0..<length t], j \<leftarrow> [Suc i..<Suc (length t)], is_maximal_run t i j]"

text \<open>For the proof only: the runs of a text that follows a character whose membership in
  the script is \<open>p\<close>.\<close>

definition run_at :: "bool \<Rightarrow> pystr \<Rightarrow> nat \<Rightarrow> nat \<Rightarrow> bool" where
  "run_at p t i j \<longleftrightarrow>
     i < j \<and> j \<le> length t \<and> (\<forall>k\<in>{i..<j}. is_bangla (t ! k)) \<and>
     (if i = 0 then \<not> p else \<not> is_bangla (t ! (i - 1))) \<and>
     (j = length t \<or> \<not> is_bangla (t ! j))"

definition runs_from :: "bool \<Rightarrow> pystr \<Rightarrow> pystr list" where
  "runs_from p t =
     [take (j - i) (drop i t).
        i \<leftarrow> [0..<length t], j \<leftarrow> [Suc i..<Suc (length t)], run_at p t i j]"

subsection \<open>Glossary filter\<close>

text \<open>A glossary entry is a dictionary read under the keys \<open>'bangla'\<close> and \<open>'sylheti'\<close>; any
  further keys are the record's extension.\<close>

record glossary_entry =
  bangla :: pystr
  sylheti :: pystr

text \<open>
  One pass of the loop of \<open>filter_relevant_glossary\<close> over an entry, on the loop state
  \<open>(seen, unique_entries)\<close>; \<open>input_tokens\<close> is the set of tokens of the lower-cased
  sentence and \<open>input_lower\<close> the lower-cased sentence.
\<close>

definition glossary_step ::
  "(pystr \<Rightarrow> pystr) \<Rightarrow> pystr fset \<Rightarrow> pystr \<Rightarrow>
   pystr fset \<times> 'a glossary_entry_scheme list \<Rightarrow> 'a glossary_entry_scheme \<Rightarrow>
   pystr fset \<times> 'a glossary_entry_scheme list" where
  "glossary_step lower input_tokens input_lower st entry =
     (let seen = fst st; unique_entries = snd st;
          bangla_word = lower (strip (bangla entry))
      in if (bangla_word |\<in>| input_tokens \<or> sublist bangla_word input_lower) \<and>
            bangla_word |\<notin>| seen
         then (finsert bangla_word seen, unique_entries @ [entry])
         else (seen, unique_entries))"

definition filter_relevant_glossary ::
  "(pystr \<Rightarrow> pystr) \<Rightarrow> pystr \<Rightarrow> 'a glossary_entry_scheme list \<Rightarrow> 'a glossary_entry_scheme list" where
  "filter_relevant_glossary lower input_sentence glossary =
     (let input_tokens = fset_of_list (tokenize_sentence (lower input_sentence))
      in snd (foldl (glossary_step lower input_tokens (lower input_sentence)) ({||}, []) glossary))"

text \<open>
  The words of the claims about the filter.  \<open>glossary_key\<close> is the word the loop compares
  and remembers; \<open>qualifies\<close> is the membership test of an entry, by the given word of it.
\<close>

definition glossary_key :: "(pystr \<Rightarrow> pystr) \<Rightarrow> 'a glossary_entry_scheme \<Rightarrow> pystr" where
  "glossary_key lower entry = lower (strip (bangla entry))"

definition qualifies :: "(pystr \<Rightarrow> pystr) \<Rightarrow> pystr \<Rightarrow> pystr \<Rightarrow> bool" where
  "qualifies lower input_sentence word \<longleftrightarrow>
     word \<in> set (tokenize_sentence (lower input_sentence)) \<or> sublist word (lower input_sentence)"

text \<open>The entries selected by position: entry \<open>i\<close> is kept when its key qualifies and no
  earlier entry with the same key qualified.\<close>

definition first_qualifying ::
  "(pystr \<Rightarrow> pystr) \<Rightarrow> pystr \<Rightarrow> 'a glossary_entry_scheme list \<Rightarrow> nat \<Rightarrow> bool" where
  "first_qualifying lower input_sentence glossary i \<longleftrightarrow>
     qualifies lower input_sentence (glossary_key lower (glossary ! i)) \<and>
     (\<forall>j\<in>{0..<i}. \<not> (glossary_key lower (glossary ! j) = glossary_key lower (glossary ! i) \<and>
        qualifies lower input_sentence (glossary_key lower (glossary ! j))))"

subsection \<open>Floating-point arithmetic of the selector\<close>

text \<open>
  The selector computes \<open>len(...) / max(1, len(...))\<close> and \<open>int(num_examples * 0.6)\<close> in
  binary64 arithmetic.  A finite double is modelled by its value, a rational number;
  \<open>round_double\<close> is rounding to the nearest double, ties to even: 53 significant bits for
  normal numbers, multiples of 2 to the power -1074 below.  Results beyond the range of doubles
  are the \<open>OverflowError\<close> of the two conversions from \<open>int\<close>.
\<close>

datatype py_error = ValueError | ZeroDivisionError | OverflowError

definition floor_log2 :: "rat \<Rightarrow> int" where
  "floor_log2 x =
     (let p = fst (quotient_of x); q = snd (quotient_of x);
          d = bitlen p - bitlen q
      in if power_int 2 d \<le> x then d else d - 1)"

definition round_half_even :: "rat \<Rightarrow> int" where
  "round_half_even q =
     (let f = \<lfloor>q\<rfloor>; r = q - of_int f
      in if r < 1 / 2 then f else if 1 / 2 < r then f + 1 else if even f then f else f + 1)"

definition ulp :: "rat \<Rightarrow> rat" where
  "ulp x = power_int 2 (max (floor_log2 \<bar>x\<bar> - 52) (- 1074))"

definition round_double :: "rat \<Rightarrow> rat" where
  "round_double x = (if x = 0 then 0 else of_int (round_half_even (x / ulp x)) * ulp x)"

definition finite_double :: "rat \<Rightarrow> py_error + rat" where
  "finite_double x = (if \<bar>x\<bar> < 2 ^ 1024 then Inr x else Inl OverflowError)"

text \<open>\<open>a / b\<close> on integers: the correctly rounded quotient.\<close>

definition py_truediv :: "int \<Rightarrow> int \<Rightarrow> py_error + rat" where
  "py_truediv a b =
     (if b = 0 then Inl ZeroDivisionError else finite_double (round_double (of_int a / of_int b)))"

text \<open>The conversion of the integer operand of \<open>num_examples * 0.6\<close>.\<close>

definition py_float_of_int :: "int \<Rightarrow> py_error + rat" where
  "py_float_of_int k = finite_double (round_double (of_int k))"

text \<open>The literal \<open>0.6\<close> is the double \<open>5404319552844595 / 2 ^ 53\<close>.  The product of a finite
  double with it is smaller in magnitude, hence finite.\<close>

definition float_0_6 :: rat where
  "float_0_6 = 5404319552844595 / 2 ^ 53"

definition py_float_mul :: "rat \<Rightarrow> rat \<Rightarrow> rat" where
  "py_float_mul x y = round_double (x * y)"

text \<open>\<open>int(x)\<close> on a finite double truncates towards zero.\<close>

definition py_int_of_float :: "rat \<Rightarrow> int" where
  "py_int_of_float x = (if 0 \<le> x then \<lfloor>x\<rfloor> else \<lceil>x\<rceil>)"

subsection \<open>Example selector\<close>

text \<open>An example is a dictionary read under the keys \<open>'bangla_speech'\<close> and
  \<open>'sylhet_bangla_speech'\<close>; any further keys are the record's extension.\<close>

record example =
  bangla_speech :: pystr
  sylhet_bangla_speech :: pystr

text \<open>\<open>len(input_tokens.intersection(example_tokens)) / max(1, len(input_tokens.union(example_tokens)))\<close>\<close>

definition jaccard :: "pystr fset \<Rightarrow> pystr fset \<Rightarrow> py_error + rat" where
  "jaccard input_tokens example_tokens =
     py_truediv (int (fcard (input_tokens |\<inter>| example_tokens)))
       (max 1 (int (fcard (input_tokens |\<union>| example_tokens))))"

text \<open>The scoring loop: the list \<open>scored_examples\<close> of pairs (similarity, example), in pool
  order.\<close>

fun score_examples ::
  "(pystr \<Rightarrow> pystr) \<Rightarrow> pystr fset \<Rightarrow> 'a example_scheme list \<Rightarrow>
   py_error + (rat \<times> 'a example_scheme) list" where
  "score_examples lower input_tokens [] = Inr []"
| "score_examples lower input_tokens (example # rest) =
     (case jaccard input_tokens
             (fset_of_list (tokenize_sentence (lower (bangla_speech example)))) of
        Inl e \<Rightarrow> Inl e
      | Inr similarity \<Rightarrow>
          (case score_examples lower input_tokens rest of
             Inl e \<Rightarrow> Inl e
           | Inr scored \<Rightarrow> Inr ((similarity, example) # scored)))"

text \<open>
  \<open>list.sort(key=..., reverse=True)\<close>: the list is reversed, sorted by a stable sort under
  the key alone, and reversed again.
\<close>

definition py_sort_reverse :: "('a \<Rightarrow> 'k::linorder) \<Rightarrow> 'a list \<Rightarrow> 'a list" where
  "py_sort_reverse key xs = rev (sort_key key (rev xs))"

text \<open>The examples in the order of \<open>scored_examples\<close> after the sort.\<close>

definition ranked_examples ::
  "(pystr \<Rightarrow> pystr) \<Rightarrow> pystr \<Rightarrow> 'a example_scheme list \<Rightarrow>
   py_error + (rat \<times> 'a example_scheme) list" where
  "ranked_examples lower input_sentence examples =
     (let input_tokens = fset_of_list (tokenize_sentence (lower input_sentence))
      in case score_examples lower input_tokens examples of
           Inl e \<Rightarrow> Inl e
         | Inr scored_examples \<Rightarrow> Inr (py_sort_reverse fst scored_examples))"

text \<open>\<open>max(1, int(num_examples * 0.6))\<close>\<close>

definition top_count :: "int \<Rightarrow> py_error + nat" where
  "top_count num_examples =
     (case py_float_of_int num_examples of
        Inl e \<Rightarrow> Inl e
      | Inr x \<Rightarrow> Inr (nat (max 1 (py_int_of_float (py_float_mul x float_0_6)))))"

text \<open>
  \<open>random.sample\<close> and \<open>random.shuffle\<close> draw from the process-wide generator.  The
  function that the generator's state makes of each is a parameter: \<open>sample\<close> gives the
  list drawn from a population for a count within its size, \<open>shuffle\<close> the rearranged
  list.  \<open>random.sample\<close> raises \<open>ValueError\<close> for a count that is negative or larger than
  the population.  The two contracts say what the library promises of any state: a sample
  has the requested length and is drawn without replacement, a shuffle rearranges.
\<close>

definition py_random_sample ::
  "('a list \<Rightarrow> nat \<Rightarrow> 'a list) \<Rightarrow> 'a list \<Rightarrow> int \<Rightarrow> py_error + 'a list" where
  "py_random_sample sample population k =
     (if 0 \<le> k \<and> k \<le> int (length population) then Inr (sample population (nat k))
      else Inl ValueError)"

definition sample_contract :: "('a list \<Rightarrow> nat \<Rightarrow> 'a list) \<Rightarrow> bool" where
  "sample_contract sample \<longleftrightarrow>
     (\<forall>xs k. k \<le> length xs \<longrightarrow> length (sample xs k) = k \<and> mset (sample xs k) \<subseteq># mset xs)"

definition shuffle_contract :: "('a list \<Rightarrow> 'a list) \<Rightarrow> bool" where
  "shuffle_contract shuffle \<longleftrightarrow> (\<forall>xs. mset (shuffle xs) = mset xs)"

text \<open>Two behaviours the library can show, used to run the selector on concrete pools.\<close>

definition sample_prefix :: "'a list \<Rightarrow> nat \<Rightarrow> 'a list" where
  "sample_prefix xs k = take k xs"

definition shuffle_reverse :: "'a list \<Rightarrow> 'a list" where
  "shuffle_reverse xs = rev xs"

definition select_fewshot_examples ::
  "(pystr \<Rightarrow> pystr) \<Rightarrow> ('a example_scheme list \<Rightarrow> nat \<Rightarrow> 'a example_scheme list) \<Rightarrow>
   ('a example_scheme list \<Rightarrow> 'a example_scheme list) \<Rightarrow>
   pystr \<Rightarrow> 'a example_scheme list \<Rightarrow> int \<Rightarrow> py_error + 'a example_scheme list" where
  "select_fewshot_examples lower sample shuffle input_sentence examples num_examples =
     (if int (length examples) \<le> num_examples then Inr examples
      else
        case ranked_examples lower input_sentence examples of
          Inl e \<Rightarrow> Inl e
        | Inr scored_examples \<Rightarrow>
            (case top_count num_examples of
               Inl e \<Rightarrow> Inl e
             | Inr n \<Rightarrow>
                 let top_examples = map snd (take n scored_examples);
                     remaining = map snd (drop n scored_examples)
                 in case py_random_sample sample remaining
                           (min (int (length remaining))
                              (num_examples - int (length top_examples))) of
                      Inl e \<Rightarrow> Inl e
                    | Inr random_examples \<Rightarrow> Inr (shuffle (top_examples @ random_examples))))"

subsection \<open>Prompt composer\<close>

text \<open>The decimal digits of the running number of an f-string, \<open>str(i)\<close> for \<open>i \<ge> 0\<close>.\<close>

fun py_str_nat :: "nat \<Rightarrow> pystr" where
  "py_str_nat n = (if n < 10 then [48 + n] else py_str_nat (n div 10) @ [48 + n mod 10])"

definition system_instructions :: pystr where
  "system_instructions =
     str ''You are an expert translator from Bengali (Bangla) to Sylheti. '' @ nl @
     str ''            Follow these guidelines for translation:'' @ nl @
     str ''            1. Preserve the original meaning and intent of the Bengali sentence'' @ nl @
     str ''            2. Use appropriate Sylheti vocabulary and grammar patterns'' @ nl @
     str ''            3. Respect idioms and cultural expressions specific to Sylheti'' @ nl @
     str ''            4. Follow the few-shot examples provided below'' @ nl @
     str ''            5. Utilize the glossary entries when appropriate'' @ nl @
     str ''            6. Maintain the tone and register of the original sentence'' @ nl @
     nl @
     str ''            Translate the Bengali text to natural, fluent Sylheti.''"

text \<open>The text one example adds to \<open>examples_text\<close>, and one entry to \<open>glossary_text\<close> (the
  arrow is U+2192).\<close>

definition example_lines :: "nat \<Rightarrow> 'a example_scheme \<Rightarrow> pystr" where
  "example_lines i example =
     py_str_nat i @ str ''. Bangla: '' @ bangla_speech example @ nl @
     str ''   Sylheti: '' @ sylhet_bangla_speech example @ nl @ nl"

definition glossary_line :: "nat \<Rightarrow> 'a glossary_entry_scheme \<Rightarrow> pystr" where
  "glossary_line i entry =
     py_str_nat i @ str ''. Bangla: '' @ bangla entry @ str '' '' @ [0x2192] @
     str '' Sylheti: '' @ sylheti entry @ nl"

text \<open>The two loops over \<open>enumerate(..., 1)\<close>, on the loop state (running number, text).\<close>

fun examples_loop :: "nat \<Rightarrow> pystr \<Rightarrow> 'a example_scheme list \<Rightarrow> pystr" where
  "examples_loop i examples_text [] = examples_text"
| "examples_loop i examples_text (example # rest) =
     examples_loop (Suc i) (examples_text @ example_lines i example) rest"

fun glossary_loop :: "nat \<Rightarrow> pystr \<Rightarrow> 'a glossary_entry_scheme list \<Rightarrow> pystr" where
  "glossary_loop i glossary_text [] = glossary_text"
| "glossary_loop i glossary_text (entry # rest) =
     glossary_loop (Suc i) (glossary_text @ glossary_line i entry) rest"

definition construct_prompt ::
  "pystr \<Rightarrow> 'a example_scheme list \<Rightarrow> 'b glossary_entry_scheme list \<Rightarrow> pystr" where
  "construct_prompt input_sentence selected_examples relevant_glossary =
     (let examples_text = examples_loop 1 (str ''Few-shot examples:'' @ nl) selected_examples;
          glossary_text = glossary_loop 1 (str ''Glossary:'' @ nl) relevant_glossary;
          input_text = str ''Bangla: '' @ input_sentence @ nl @ str ''Sylheti:''
      in system_instructions @ nl @ nl @ examples_text @ nl @ glossary_text @ nl @ nl @ input_text)"

text \<open>For the proof only: the loop of the filter as a recursion on the set of remembered
  keys, and its result by position.\<close>

fun first_occurrences ::
  "('e \<Rightarrow> 'k) \<Rightarrow> ('k \<Rightarrow> bool) \<Rightarrow> 'k set \<Rightarrow> 'e list \<Rightarrow> 'e list" where
  "first_occurrences key Q seen [] = []"
| "first_occurrences key Q seen (e # es) =
     (if Q (key e) \<and> key e \<notin> seen then e # first_occurrences key Q (insert (key e) seen) es
      else first_occurrences key Q seen es)"

definition first_at :: "('e \<Rightarrow> 'k) \<Rightarrow> ('k \<Rightarrow> bool) \<Rightarrow> 'k set \<Rightarrow> 'e list \<Rightarrow> nat \<Rightarrow> bool" where
  "first_at key Q seen es i \<longleftrightarrow>
     Q (key (es ! i)) \<and> key (es ! i) \<notin> seen \<and>
     (\<forall>j\<in>{0..<i}. \<not> (key (es ! j) = key (es ! i) \<and> Q (key (es ! j))))"

text \<open>The similarity score the scoring loop gives an example (the guarded division has a
  result for every pair of token sets).\<close>

definition similarity :: "(pystr \<Rightarrow> pystr) \<Rightarrow> pystr \<Rightarrow> 'a example_scheme \<Rightarrow> rat" where
  "similarity lower input_sentence example =
     (case jaccard (fset_of_list (tokenize_sentence (lower input_sentence)))
             (fset_of_list (tokenize_sentence (lower (bangla_speech example)))) of
        Inr r \<Rightarrow> r
      | Inl e \<Rightarrow> 0)"

section \<open>Properties\<close>

subsection \<open>Tokenizer\<close>

lemma is_maximal_run_run_at: "is_maximal_run t i j = run_at False t i j"
  by (auto simp: is_maximal_run_def run_at_def)

lemma maximal_runs_runs_from: "maximal_runs t = runs_from False t"
  by (simp only: maximal_runs_def runs_from_def is_maximal_run_run_at)

lemma run_at_Suc:
  "run_at p (c # cs) (Suc i) (Suc j) \<longleftrightarrow> run_at (is_bangla c) cs i j"
proof -
  have "(\<forall>k\<in>{Suc i..<Suc j}. is_bangla ((c # cs) ! k)) \<longleftrightarrow> (\<forall>k\<in>{i..<j}. is_bangla (cs ! k))"
  proof
    assume h: "\<forall>k\<in>{Suc i..<Suc j}. is_bangla ((c # cs) ! k)"
    show "\<forall>k\<in>{i..<j}. is_bangla (cs ! k)"
    proof
      fix k assume "k \<in> {i..<j}"
      then have "Suc k \<in> {Suc i..<Suc j}" by simp
      with h have "is_bangla ((c # cs) ! Suc k)" by blast
      then show "is_bangla (cs ! k)" by simp
    qed
  next
    assume h: "\<forall>k\<in>{i..<j}. is_bangla (cs ! k)"
    show "\<forall>k\<in>{Suc i..<Suc j}. is_bangla ((c # cs) ! k)"
    proof
      fix k assume k: "k \<in> {Suc i..<Suc j}"
      then obtain k' where k': "k = Suc k'" by (cases k) auto
      with k have "k' \<in> {i..<j}" by simp
      with h k' show "is_bangla ((c # cs) ! k)" by simp
    qed
  qed
  then show ?thesis
    by (cases i) (simp_all add: run_at_def)
qed

lemma run_at_0:
  "run_at p (c # cs) 0 j \<longleftrightarrow> \<not> p \<and> is_bangla c \<and> j = Suc (length (takeWhile is_bangla cs))"
proof (cases "\<not> p \<and> is_bangla c")
  case False
  have "\<not> run_at p (c # cs) 0 j"
  proof
    assume r: "run_at p (c # cs) 0 j"
    then have "0 < j" "\<not> p" and a: "\<forall>k\<in>{0..<j}. is_bangla ((c # cs) ! k)"
      by (auto simp: run_at_def)
    then have "0 \<in> {0..<j}" by simp
    with a have "is_bangla ((c # cs) ! 0)" by blast
    with False \<open>\<not> p\<close> show False by simp
  qed
  with False show ?thesis by blast
next
  case True
  let ?n = "length (takeWhile is_bangla cs)"
  have all: "\<forall>k<Suc ?n. is_bangla ((c # cs) ! k)"
  proof (intro allI impI)
    fix k assume "k < Suc ?n"
    show "is_bangla ((c # cs) ! k)"
    proof (cases k)
      case 0
      with True show ?thesis by simp
    next
      case (Suc k')
      with \<open>k < Suc ?n\<close> have k': "k' < ?n" by simp
      then have "takeWhile is_bangla cs ! k' \<in> set (takeWhile is_bangla cs)" by (rule nth_mem)
      then have "is_bangla (takeWhile is_bangla cs ! k')" by (rule set_takeWhileD[THEN conjunct2])
      with k' Suc show ?thesis by (simp add: takeWhile_nth)
    qed
  qed
  have stop: "Suc ?n = length (c # cs) \<or> \<not> is_bangla ((c # cs) ! Suc ?n)"
    using nth_length_takeWhile[of is_bangla cs] length_takeWhile_le[of is_bangla cs]
    by (cases "?n < length cs") auto
  show ?thesis
  proof
    assume r: "run_at p (c # cs) 0 j"
    then have j: "0 < j" "j \<le> Suc (length cs)" and a: "\<forall>k\<in>{0..<j}. is_bangla ((c # cs) ! k)"
      and e: "j = Suc (length cs) \<or> \<not> is_bangla ((c # cs) ! j)"
      by (auto simp: run_at_def)
    have "j = Suc ?n"
    proof (rule ccontr)
      assume ne: "j \<noteq> Suc ?n"
      show False
      proof (cases "j < Suc ?n")
        case True
        with all e j length_takeWhile_le[of is_bangla cs] show False by auto
      next
        case False
        with ne have "Suc ?n < j" by simp
        then have "Suc ?n \<in> {0..<j}" by simp
        with a have "is_bangla ((c # cs) ! Suc ?n)" by blast
        moreover have "?n < length cs" using \<open>Suc ?n < j\<close> j by simp
        ultimately show False using nth_length_takeWhile[of is_bangla cs] by simp
      qed
    qed
    with True show "\<not> p \<and> is_bangla c \<and> j = Suc ?n" by simp
  next
    assume "\<not> p \<and> is_bangla c \<and> j = Suc ?n"
    then show "run_at p (c # cs) 0 j"
      using all stop length_takeWhile_le[of is_bangla cs] by (auto simp: run_at_def)
  qed
qed

lemma filter_upt_singleton:
  "filter (\<lambda>j. j = n) [a..<b] = (if a \<le> n \<and> n < b then [n] else [])"
  by (induction b) auto

lemma concat_map_if_singleton:
  "concat (map (\<lambda>j. if P j then [f j] else []) xs) = map f (filter P xs)"
  by (induction xs) simp_all

lemma runs_from_Nil: "runs_from p [] = []"
  by (simp add: runs_from_def)

lemma runs_from_rows:
  "runs_from p t =
     concat (map (\<lambda>i. map (\<lambda>j. take (j - i) (drop i t)) (filter (run_at p t i) [Suc i..<Suc (length t)]))
       [0..<length t])"
  by (simp add: runs_from_def concat_map_if_singleton)

lemma run_row_0:
  "map (\<lambda>j. take (j - 0) (drop 0 (c # cs)))
      (filter (run_at p (c # cs) 0) [Suc 0..<Suc (length (c # cs))]) =
     (if \<not> p \<and> is_bangla c then [c # takeWhile is_bangla cs] else [])"
proof (cases "\<not> p \<and> is_bangla c")
  case False
  then have "filter (run_at p (c # cs) 0) [Suc 0..<Suc (length (c # cs))] = []"
    unfolding filter_empty_conv run_at_0 by blast
  with False show ?thesis by (simp del: upt_Suc)
next
  case True
  let ?n = "length (takeWhile is_bangla cs)"
  have "run_at p (c # cs) 0 = (\<lambda>j. j = Suc ?n)"
    using True by (auto simp: run_at_0 fun_eq_iff)
  moreover have "?n \<le> length cs" by (rule length_takeWhile_le)
  moreover have "take ?n cs = takeWhile is_bangla cs"
    by (rule takeWhile_eq_take[symmetric])
  ultimately show ?thesis using True
    by (simp add: filter_upt_singleton del: upt_Suc)
qed

lemma run_row_Suc:
  "map (\<lambda>j. take (j - Suc i) (drop (Suc i) (c # cs)))
      (filter (run_at p (c # cs) (Suc i)) [Suc (Suc i)..<Suc (length (c # cs))]) =
   map (\<lambda>j. take (j - i) (drop i cs)) (filter (run_at (is_bangla c) cs i) [Suc i..<Suc (length cs)])"
proof -
  have "[Suc (Suc i)..<Suc (length (c # cs))] = map Suc [Suc i..<Suc (length cs)]"
    by (simp only: map_Suc_upt length_Cons)
  then show ?thesis
    by (simp only: filter_map map_map o_def run_at_Suc diff_Suc_Suc drop_Suc_Cons)
qed

lemma runs_from_Cons:
  "runs_from p (c # cs) =
     (if \<not> p \<and> is_bangla c then [c # takeWhile is_bangla cs] else []) @ runs_from (is_bangla c) cs"
proof -
  have "[0..<length (c # cs)] = 0 # map Suc [0..<length cs]"
    by (simp only: length_Cons upt_conv_Cons zero_less_Suc map_Suc_upt)
  then show ?thesis
    unfolding runs_from_rows
    by (simp only: list.map concat.simps run_row_0 map_map o_def run_row_Suc)
qed

lemma runs_from_findall:
  "runs_from False t = re_findall_bangla t \<and>
   runs_from True t = re_findall_bangla (dropWhile is_bangla t)"
proof (induction t)
  case Nil
  show ?case by (simp add: runs_from_Nil)
next
  case (Cons c cs)
  show ?case
  proof (cases "is_bangla c")
    case True
    with Cons show ?thesis by (simp add: runs_from_Cons)
  next
    case False
    with Cons show ?thesis by (simp add: runs_from_Cons)
  qed
qed

lemma findall_maximal_runs: "re_findall_bangla t = maximal_runs t"
  by (simp add: maximal_runs_runs_from runs_from_findall)

lemma findall_script_only:
  "tok \<in> set (re_findall_bangla t) \<Longrightarrow> tok \<noteq> [] \<and> (\<forall>c\<in>set tok. is_bangla c)"
proof (induction t rule: re_findall_bangla.induct)
  case 1
  then show ?case by simp
next
  case (2 c cs)
  show ?case
  proof (cases "is_bangla c")
    case False
    with 2 show ?thesis by simp
  next
    case True
    have tw: "\<forall>x\<in>set (takeWhile is_bangla cs). is_bangla x"
      by (blast dest: set_takeWhileD)
    from 2(3) True consider "tok = c # takeWhile is_bangla cs"
      | "tok \<in> set (re_findall_bangla (dropWhile is_bangla cs))" by auto
    then show ?thesis
    proof cases
      case 1
      with True tw show ?thesis by simp
    next
      case 2
      with "2.IH"(1) True show ?thesis by blast
    qed
  qed
qed

lemma concat_findall: "concat (re_findall_bangla t) = filter is_bangla t"
proof (induction t rule: re_findall_bangla.induct)
  case 1
  show ?case by simp
next
  case (2 c cs)
  have "takeWhile is_bangla cs @ filter is_bangla (dropWhile is_bangla cs) = filter is_bangla cs"
    by (induction cs) simp_all
  with 2 show ?case by simp
qed

lemma findall_no_script: "\<forall>c\<in>set t. \<not> is_bangla c \<Longrightarrow> re_findall_bangla t = []"
  by (induction t) simp_all

text \<open>
  C8.  For every text \<open>t\<close>, both tokenizers return exactly the maximal runs of characters
  of the block U+0980--U+09FF, in the order of their positions in \<open>t\<close>; every token is a
  non-empty string of characters of the block; the characters of the tokens, in order,
  are the script characters of \<open>t\<close> (all other characters only separate and are dropped);
  and a text without script characters has no token.
\<close>

theorem tokenize_maximal_runs:
  "tokenize_sentence t = maximal_runs t \<and> tokenize_bangla t = maximal_runs t \<and>
   (\<forall>tok\<in>set (tokenize_sentence t). tok \<noteq> [] \<and> (\<forall>c\<in>set tok. 0x0980 \<le> c \<and> c \<le> 0x09FF)) \<and>
   concat (tokenize_sentence t) = filter (\<lambda>c. 0x0980 \<le> c \<and> c \<le> 0x09FF) t \<and>
   ((\<forall>c\<in>set t. \<not> (0x0980 \<le> c \<and> c \<le> 0x09FF)) \<longrightarrow> tokenize_sentence t = [])"
proof -
  have b: "is_bangla = (\<lambda>c. 0x0980 \<le> c \<and> c \<le> 0x09FF)"
    by (simp add: fun_eq_iff is_bangla_def)
  have "\<forall>tok\<in>set (re_findall_bangla t). tok \<noteq> [] \<and> (\<forall>c\<in>set tok. is_bangla c)"
    using findall_script_only by blast
  moreover have "(\<forall>c\<in>set t. \<not> is_bangla c) \<longrightarrow> re_findall_bangla t = []"
    using findall_no_script by blast
  ultimately show ?thesis
    unfolding tokenize_sentence_def tokenize_bangla_def
    using findall_maximal_runs[of t] concat_findall[of t] unfolding b by simp
qed

theorem tokenize_maximal_runs_witness:
  "tokenize_sentence [2438, 2478, 32, 65, 2476, 2439, 33] = [[2438, 2478], [2476, 2439]] \<and>
   maximal_runs [2438, 2478, 32, 65, 2476, 2439, 33] = [[2438, 2478], [2476, 2439]] \<and>
   \<not> is_bangla 65 \<and> \<not> is_bangla 32 \<and> \<not> is_bangla 49 \<and>
   tokenize_sentence [65, 32, 49] = [] \<and> maximal_runs [65, 32, 49] = []"
  using tokenize_maximal_runs[of "[2438, 2478, 32, 65, 2476, 2439, 33]"]
    tokenize_maximal_runs[of "[65, 32, 49]"]
  by (simp add: tokenize_sentence_def is_bangla_def)

subsection \<open>Glossary filter\<close>

lemma findall_sublist: "tok \<in> set (re_findall_bangla t) \<Longrightarrow> sublist tok t"
proof (induction t rule: re_findall_bangla.induct)
  case 1
  then show ?case by simp
next
  case (2 c cs)
  show ?case
  proof (cases "is_bangla c")
    case False
    with 2 have "sublist tok cs" by simp
    then show ?thesis by (simp add: sublist_Cons_right)
  next
    case True
    from 2(3) True consider "tok = c # takeWhile is_bangla cs"
      | "tok \<in> set (re_findall_bangla (dropWhile is_bangla cs))" by auto
    then show ?thesis
    proof cases
      case 1
      have "prefix (c # takeWhile is_bangla cs) (c # cs)"
        by (simp add: takeWhile_is_prefix)
      with 1 show ?thesis by (simp add: sublist_Cons_right)
    next
      case 2
      with "2.IH"(1) True have "sublist tok (dropWhile is_bangla cs)" by blast
      moreover have "sublist (dropWhile is_bangla cs) cs"
        by (rule suffix_imp_sublist) (rule suffix_dropWhile)
      ultimately have "sublist tok cs" by (rule sublist_order.order.trans)
      then show ?thesis by (simp add: sublist_Cons_right)
    qed
  qed
qed

lemma qualifies_iff_sublist: "qualifies lower s w \<longleftrightarrow> sublist w (lower s)"
  unfolding qualifies_def tokenize_sentence_def using findall_sublist by blast

lemma glossary_step_eq:
  "glossary_step lower (fset_of_list (tokenize_sentence (lower s))) (lower s) (seen, acc) e =
     (if qualifies lower s (glossary_key lower e) \<and> glossary_key lower e |\<notin>| seen
      then (finsert (glossary_key lower e) seen, acc @ [e]) else (seen, acc))"
  by (simp add: glossary_step_def qualifies_def glossary_key_def fset_of_list.rep_eq Let_def)

lemma glossary_loop_first_occurrences:
  "snd (foldl (glossary_step lower (fset_of_list (tokenize_sentence (lower s))) (lower s)) (seen, acc) G) =
     acc @ first_occurrences (glossary_key lower) (qualifies lower s) (fset seen) G"
proof (induction G arbitrary: seen acc)
  case Nil
  show ?case by simp
next
  case (Cons e G)
  show ?case
    by (auto simp add: glossary_step_eq Cons.IH)
qed

lemma filter_glossary_first_occurrences:
  "filter_relevant_glossary lower s G = first_occurrences (glossary_key lower) (qualifies lower s) {} G"
  using glossary_loop_first_occurrences[of lower s "{||}" "[]" G]
  by (simp add: filter_relevant_glossary_def)

lemma first_occurrences_keys:
  "key ` set (first_occurrences key Q seen es) \<inter> seen = {} \<and>
   distinct (map key (first_occurrences key Q seen es)) \<and>
   (\<forall>e\<in>set (first_occurrences key Q seen es). Q (key e) \<and> e \<in> set es)"
proof (induction es arbitrary: seen)
  case Nil
  show ?case by simp
next
  case (Cons e es)
  show ?case
  proof (cases "Q (key e) \<and> key e \<notin> seen")
    case True
    from Cons[of "insert (key e) seen"] True show ?thesis by auto
  next
    case False
    from Cons[of seen] False show ?thesis by auto
  qed
qed

lemma first_at_0: "first_at key Q seen (e # es) 0 \<longleftrightarrow> Q (key e) \<and> key e \<notin> seen"
  by (simp add: first_at_def)

lemma ball_upt_Suc: "(\<forall>j\<in>{0..<Suc i}. R j) \<longleftrightarrow> R 0 \<and> (\<forall>j\<in>{0..<i}. R (Suc j))"
  by (auto simp: less_Suc_eq_0_disj)

lemma first_at_Suc:
  "first_at key Q seen (e # es) (Suc i) \<longleftrightarrow>
     first_at key Q (if Q (key e) \<and> key e \<notin> seen then insert (key e) seen else seen) es i"
  unfolding first_at_def ball_upt_Suc by auto

lemma first_occurrences_positions:
  "first_occurrences key Q seen es = map ((!) es) (filter (first_at key Q seen es) [0..<length es])"
proof (induction es arbitrary: seen)
  case Nil
  show ?case by simp
next
  case (Cons e es)
  have upt: "[0..<length (e # es)] = 0 # map Suc [0..<length es]"
    by (simp only: length_Cons upt_conv_Cons zero_less_Suc map_Suc_upt)
  show ?case
    unfolding upt
    by (simp add: first_at_0 first_at_Suc filter_map o_def Cons.IH)
qed

lemma first_at_first_qualifying:
  "first_at (glossary_key lower) (qualifies lower s) {} G i = first_qualifying lower s G i"
  by (simp add: first_at_def first_qualifying_def)

text \<open>
  C3, as the code has it.  The word the filter tests and remembers is the source word with
  leading and trailing whitespace stripped, then lower-cased.  For every sentence and
  glossary, the result lists, in glossary order, exactly the entries at the positions
  whose stripped lower-cased source word is a token of the lower-cased sentence or a
  substring of it and at which no earlier entry with the same stripped lower-cased source
  word qualified; the stripped lower-cased source word of every returned entry is a
  substring of the lower-cased sentence; and no two returned entries share their stripped
  lower-cased source word.
\<close>

theorem filter_glossary_first_qualifying:
  "filter_relevant_glossary lower s G =
     map ((!) G) (filter (first_qualifying lower s G) [0..<length G]) \<and>
   (\<forall>e. e \<in> set (filter_relevant_glossary lower s G) \<longleftrightarrow>
      (\<exists>i<length G. G ! i = e \<and> first_qualifying lower s G i)) \<and>
   (\<forall>e\<in>set (filter_relevant_glossary lower s G). sublist (lower (strip (bangla e))) (lower s)) \<and>
   distinct (map (\<lambda>e. lower (strip (bangla e))) (filter_relevant_glossary lower s G))"
proof -
  let ?R = "filter_relevant_glossary lower s G"
  have pos: "?R = map ((!) G) (filter (first_qualifying lower s G) [0..<length G])"
    unfolding filter_glossary_first_occurrences first_occurrences_positions
    by (simp only: first_at_first_qualifying[abs_def])
  have mem: "e \<in> set ?R \<longleftrightarrow> (\<exists>i<length G. G ! i = e \<and> first_qualifying lower s G i)" for e
    unfolding pos by auto
  have k: "glossary_key lower = (\<lambda>e. lower (strip (bangla e)))"
    by (simp add: fun_eq_iff glossary_key_def)
  from first_occurrences_keys[of "glossary_key lower" "qualifies lower s" "{}" G]
  have "distinct (map (glossary_key lower) ?R)"
    and "\<forall>e\<in>set ?R. qualifies lower s (glossary_key lower e)"
    unfolding filter_glossary_first_occurrences by blast+
  then have "distinct (map (\<lambda>e. lower (strip (bangla e))) ?R)"
    and "\<forall>e\<in>set ?R. sublist (lower (strip (bangla e))) (lower s)"
    unfolding k qualifies_iff_sublist by simp_all
  with pos mem show ?thesis by blast
qed

lemma filter_glossary_example:
  "filter_relevant_glossary lower_ascii [2438, 2478, 2494, 2480, 32, 2476, 2439, 32, 2438, 2459, 2503]
     [\<lparr>bangla = [2476, 2439, 32], sylheti = [2453, 2495, 2468, 2494, 2476]\<rparr>,
      \<lparr>bangla = [2476, 2439], sylheti = [2476, 2439]\<rparr>,
      \<lparr>bangla = [2453, 2482, 2478], sylheti = [2453, 2482, 2478]\<rparr>] =
     [\<lparr>bangla = [2476, 2439, 32], sylheti = [2453, 2495, 2468, 2494, 2476]\<rparr>]"
  by (simp add: filter_relevant_glossary_def glossary_step_def tokenize_sentence_def is_bangla_def lower_ascii_def strip_def is_space_def sublist_code)

theorem filter_glossary_first_qualifying_witness:
  "map ((!) [\<lparr>bangla = [2476, 2439, 32], sylheti = [2453, 2495, 2468, 2494, 2476]\<rparr>,
      \<lparr>bangla = [2476, 2439], sylheti = [2476, 2439]\<rparr>,
      \<lparr>bangla = [2453, 2482, 2478], sylheti = [2453, 2482, 2478]\<rparr>])
     (filter (first_qualifying lower_ascii [2438, 2478, 2494, 2480, 32, 2476, 2439, 32, 2438, 2459, 2503]
        [\<lparr>bangla = [2476, 2439, 32], sylheti = [2453, 2495, 2468, 2494, 2476]\<rparr>,
         \<lparr>bangla = [2476, 2439], sylheti = [2476, 2439]\<rparr>,
         \<lparr>bangla = [2453, 2482, 2478], sylheti = [2453, 2482, 2478]\<rparr>])
        [0..<length [\<lparr>bangla = [2476, 2439, 32], sylheti = [2453, 2495, 2468, 2494, 2476]\<rparr>,
         \<lparr>bangla = [2476, 2439], sylheti = [2476, 2439]\<rparr>,
         \<lparr>bangla = [2453, 2482, 2478], sylheti = [2453, 2482, 2478]\<rparr>]]) =
     [\<lparr>bangla = [2476, 2439, 32], sylheti = [2453, 2495, 2468, 2494, 2476]\<rparr>] \<and>
   sublist (lower_ascii (strip [2476, 2439, 32]))
     (lower_ascii [2438, 2478, 2494, 2480, 32, 2476, 2439, 32, 2438, 2459, 2503])"
proof -
  note t = filter_glossary_first_qualifying[of lower_ascii
      "[2438, 2478, 2494, 2480, 32, 2476, 2439, 32, 2438, 2459, 2503]"
      "[\<lparr>bangla = [2476, 2439, 32], sylheti = [2453, 2495, 2468, 2494, 2476]\<rparr>,
        \<lparr>bangla = [2476, 2439], sylheti = [2476, 2439]\<rparr>,
        \<lparr>bangla = [2453, 2482, 2478], sylheti = [2453, 2482, 2478]\<rparr>]",
      unfolded filter_glossary_example]
  from t[THEN conjunct2, THEN conjunct2, THEN conjunct1]
  have "sublist (lower_ascii (strip [2476, 2439, 32]))
     (lower_ascii [2438, 2478, 2494, 2480, 32, 2476, 2439, 32, 2438, 2459, 2503])"
    by simp
  with t[THEN conjunct1, symmetric] show ?thesis by (rule conjI)
qed

text \<open>
  C3 as stated speaks of the lower-cased source word, not stripped.  The glossary with the
  single entry whose source word is U+09AC U+0987 followed by a space, filtered for the
  sentence U+09AC U+0987: the entry is returned, though its lower-cased source word is
  neither a token of the lower-cased sentence nor a substring of it.
\<close>

theorem filter_glossary_unstripped_word_counterexample:
  "filter_relevant_glossary lower_ascii [2476, 2439]
     [\<lparr>bangla = [2476, 2439, 32], sylheti = [2453, 2495, 2468, 2494, 2476]\<rparr>] =
     [\<lparr>bangla = [2476, 2439, 32], sylheti = [2453, 2495, 2468, 2494, 2476]\<rparr>] \<and>
   lower_ascii [2476, 2439, 32] \<notin> set (tokenize_sentence (lower_ascii [2476, 2439])) \<and>
   \<not> sublist (lower_ascii [2476, 2439, 32]) (lower_ascii [2476, 2439])"
  by (simp add: filter_relevant_glossary_def glossary_step_def tokenize_sentence_def is_bangla_def lower_ascii_def strip_def is_space_def sublist_code)

subsection \<open>Binary64 rounding\<close>

lemma bitlen_powi_bounds:
  assumes "0 < p"
  shows "power_int (2::rat) (bitlen p - 1) \<le> of_int p" "of_int p < power_int (2::rat) (bitlen p)"
proof -
  from assms have b: "1 \<le> bitlen p" by (auto simp: bitlen_alt_def)
  from bitlen_bounds[OF assms] have lo: "2 ^ nat (bitlen p - 1) \<le> p" and hi: "p < 2 ^ nat (bitlen p)"
    by simp_all
  from lo have "(of_int (2 ^ nat (bitlen p - 1)) :: rat) \<le> of_int p"
    by (simp only: of_int_le_iff)
  with b show "power_int (2::rat) (bitlen p - 1) \<le> of_int p"
    by (simp add: power_int_def)
  from hi have "(of_int p :: rat) < of_int (2 ^ nat (bitlen p))"
    by (simp only: of_int_less_iff)
  with b show "of_int p < power_int (2::rat) (bitlen p)"
    by (simp add: power_int_def)
qed

lemma floor_log2_bounds:
  assumes "0 < x"
  shows "power_int 2 (floor_log2 x) \<le> x \<and> x < power_int 2 (floor_log2 x + 1)"
proof -
  obtain p q where pq: "quotient_of x = (p, q)" by (cases "quotient_of x")
  then have q: "0 < q" and x: "x = of_int p / of_int q"
    by (simp_all add: quotient_of_denom_pos quotient_of_div)
  with assms have p: "0 < p" by (simp add: zero_less_divide_iff)
  define d where "d = bitlen p - bitlen q"
  have up: "x < power_int 2 (d + 1)"
  proof -
    have "of_int p < power_int (2::rat) (bitlen p)" by (rule bitlen_powi_bounds[OF p])
    also have "\<dots> = power_int 2 (d + 1) * power_int 2 (bitlen q - 1)"
      by (simp add: d_def flip: power_int_add)
    also have "\<dots> \<le> power_int 2 (d + 1) * of_int q"
      by (intro mult_left_mono bitlen_powi_bounds[OF q]) simp
    finally show ?thesis using q by (simp add: x pos_divide_less_eq)
  qed
  have lo: "power_int 2 (d - 1) < x"
  proof -
    have "power_int (2::rat) (d - 1) * of_int q < power_int 2 (d - 1) * power_int 2 (bitlen q)"
      by (intro mult_strict_left_mono bitlen_powi_bounds[OF q]) simp
    also have "\<dots> = power_int 2 (bitlen p - 1)"
      by (simp add: d_def flip: power_int_add)
    also have "\<dots> \<le> of_int p" by (rule bitlen_powi_bounds[OF p])
    finally show ?thesis using q by (simp add: x pos_less_divide_eq)
  qed
  have fl: "floor_log2 x = (if power_int 2 d \<le> x then d else d - 1)"
    by (simp add: floor_log2_def pq d_def Let_def)
  show ?thesis
  proof (cases "power_int 2 d \<le> x")
    case True
    with fl up show ?thesis by simp
  next
    case False
    with fl lo show ?thesis by simp
  qed
qed

lemma floor_log2_unique:
  assumes "power_int 2 e \<le> x" "x < power_int 2 (e + 1)"
  shows "floor_log2 x = e"
proof -
  have "0 < power_int (2::rat) e" by simp
  from this assms(1) have x: "0 < x" by (rule less_le_trans)
  note b = floor_log2_bounds[OF x]
  have "power_int (2::rat) (floor_log2 x) < power_int 2 (e + 1)"
    using b assms by simp
  then have 1: "floor_log2 x < e + 1"
    by (metis power_int_increasing not_less one_le_numeral)
  have "power_int (2::rat) e < power_int 2 (floor_log2 x + 1)"
    using b assms by simp
  then have 2: "e < floor_log2 x + 1"
    by (metis power_int_increasing not_less one_le_numeral)
  from 1 2 show ?thesis by simp
qed

lemma round_half_even_cases:
  "round_half_even q = \<lfloor>q\<rfloor> \<or> round_half_even q = \<lfloor>q\<rfloor> + 1 \<and> of_int \<lfloor>q\<rfloor> < q"
  by (auto simp: round_half_even_def Let_def)

lemma round_half_even_error: "\<bar>of_int (round_half_even q) - q\<bar> \<le> 1 / 2"
proof -
  have "of_int \<lfloor>q\<rfloor> \<le> q" "q < of_int \<lfloor>q\<rfloor> + 1" by linarith+
  then show ?thesis
    by (auto simp: round_half_even_def Let_def)
qed

lemma round_half_even_of_int [simp]: "round_half_even (of_int n) = n"
  by (simp add: round_half_even_def)

lemma round_half_even_ge: "of_int n \<le> q \<Longrightarrow> n \<le> round_half_even q"
proof -
  assume "of_int n \<le> q"
  then have "n \<le> \<lfloor>q\<rfloor>" by (simp add: le_floor_iff)
  with round_half_even_cases[of q] show ?thesis by auto
qed

lemma round_half_even_le: "q \<le> of_int n \<Longrightarrow> round_half_even q \<le> n"
proof -
  assume a: "q \<le> of_int n"
  then have f: "\<lfloor>q\<rfloor> \<le> n" by (simp add: floor_le_iff) 
  from round_half_even_cases[of q] show ?thesis
  proof
    assume "round_half_even q = \<lfloor>q\<rfloor>"
    with f show ?thesis by simp
  next
    assume h: "round_half_even q = \<lfloor>q\<rfloor> + 1 \<and> of_int \<lfloor>q\<rfloor> < q"
    with a have "(of_int \<lfloor>q\<rfloor> :: rat) < of_int n" by simp
    then have "\<lfloor>q\<rfloor> < n" by (simp only: of_int_less_iff)
    with h show ?thesis by simp
  qed
qed

lemma ulp_pos [simp]: "0 < ulp x"
  by (simp add: ulp_def)

lemma ulp_nonneg [simp]: "0 \<le> ulp x"
  by (simp add: ulp_def)


lemma round_double_0 [simp]: "round_double 0 = 0"
  by (simp add: round_double_def)

lemma round_double_divides:
  "x \<noteq> 0 \<Longrightarrow> round_double x = of_int (round_half_even (x / ulp x)) * ulp x"
  by (simp add: round_double_def)

text \<open>A value that is a multiple of the unit in the last place is a double.\<close>
lemma round_double_exact:
  assumes "x = of_int n * ulp x"
  shows "round_double x = x"
proof (cases "x = 0")
  case True
  then show ?thesis by simp
next
  case False
  have "x / ulp x = of_int n"
    using assms ulp_pos[of x] by (metis less_irrefl nonzero_eq_divide_eq)
  with False assms show ?thesis by (simp add: round_double_divides)
qed

lemma round_double_error: "\<bar>round_double x - x\<bar> \<le> ulp x / 2"
proof (cases "x = 0")
  case True
  then show ?thesis by simp
next
  case False
  let ?u = "ulp x"
  have u: "0 < ?u" by simp
  have "\<bar>round_double x - x\<bar> = \<bar>of_int (round_half_even (x / ?u)) - x / ?u\<bar> * ?u"
  proof -
    have "round_double x - x = (of_int (round_half_even (x / ?u)) - x / ?u) * ?u"
      using u False by (simp add: round_double_divides left_diff_distrib less_imp_neq[THEN not_sym])
    then show ?thesis using u by (simp add: abs_mult abs_of_pos)
  qed
  also have "\<dots> \<le> (1 / 2) * ?u"
    by (intro mult_right_mono round_half_even_error) simp
  finally show ?thesis by simp
qed

text \<open>Rounding does not cross a multiple of the unit in the last place.\<close>
lemma round_double_le_multiple:
  assumes "x \<le> of_int n * ulp x"
  shows "round_double x \<le> of_int n * ulp x"
proof (cases "x = 0")
  case True
  with assms show ?thesis by simp
next
  case False
  have "x / ulp x \<le> of_int n" using assms ulp_pos[of x] by (simp add: pos_divide_le_eq)
  then have "round_half_even (x / ulp x) \<le> n" by (rule round_half_even_le)
  then have "(of_int (round_half_even (x / ulp x)) :: rat) \<le> of_int n" by (simp only: of_int_le_iff)
  then show ?thesis using False ulp_pos[of x]
    by (simp add: round_double_divides)
qed

lemma round_double_ge_multiple:
  assumes "of_int n * ulp x \<le> x"
  shows "of_int n * ulp x \<le> round_double x"
proof (cases "x = 0")
  case True
  with assms show ?thesis by simp
next
  case False
  have "of_int n \<le> x / ulp x" using assms ulp_pos[of x] by (simp add: pos_le_divide_eq)
  then have "n \<le> round_half_even (x / ulp x)" by (rule round_half_even_ge)
  then have "(of_int n :: rat) \<le> of_int (round_half_even (x / ulp x))" by (simp only: of_int_le_iff)
  then show ?thesis using False ulp_pos[of x]
    by (simp add: round_double_divides)
qed


lemma round_half_even_ge_near: "of_int m - 1 / 2 < q \<Longrightarrow> m \<le> round_half_even q"
proof -
  assume a: "of_int m - 1 / 2 < q"
  from round_half_even_error[of q] have "q - 1 / 2 \<le> of_int (round_half_even q)" by linarith
  with a have "(of_int (m - 1) :: rat) < of_int (round_half_even q)" by simp
  then have "m - 1 < round_half_even q" by (simp only: of_int_less_iff)
  then show ?thesis by simp
qed

lemma round_half_even_le_near: "q < of_int m + 1 / 2 \<Longrightarrow> round_half_even q \<le> m"
proof -
  assume a: "q < of_int m + 1 / 2"
  from round_half_even_error[of q] have "of_int (round_half_even q) \<le> q + 1 / 2" by linarith
  with a have "(of_int (round_half_even q) :: rat) < of_int (m + 1)" by simp
  then have "round_half_even q < m + 1" by (simp only: of_int_less_iff)
  then show ?thesis by simp
qed

lemma round_double_ge_near:
  assumes "x \<noteq> 0" "of_int m * ulp x - ulp x / 2 < x"
  shows "of_int m * ulp x \<le> round_double x"
proof -
  have u: "0 < ulp x" by simp
  have "(of_int m - 1 / 2) * ulp x < x" using assms(2) by (simp add: left_diff_distrib)
  then have "of_int m - 1 / 2 < x / ulp x" using u by (simp add: pos_less_divide_eq)
  then have "m \<le> round_half_even (x / ulp x)" by (rule round_half_even_ge_near)
  then have "(of_int m :: rat) \<le> of_int (round_half_even (x / ulp x))" by (simp only: of_int_le_iff)
  then show ?thesis using assms(1) u by (simp add: round_double_divides)
qed

lemma round_double_le_near:
  assumes "x \<noteq> 0" "x < of_int m * ulp x + ulp x / 2"
  shows "round_double x \<le> of_int m * ulp x"
proof -
  have u: "0 < ulp x" by simp
  have "x < (of_int m + 1 / 2) * ulp x" using assms(2) by (simp add: distrib_right)
  then have "x / ulp x < of_int m + 1 / 2" using u by (simp add: pos_divide_less_eq)
  then have "round_half_even (x / ulp x) \<le> m" by (rule round_half_even_le_near)
  then have "(of_int (round_half_even (x / ulp x)) :: rat) \<le> of_int m" by (simp only: of_int_le_iff)
  then show ?thesis using assms(1) u by (simp add: round_double_divides)
qed

lemma floor_log2_ge:
  assumes "power_int 2 a \<le> x"
  shows "a \<le> floor_log2 x"
proof -
  have "0 < power_int (2::rat) a" by simp
  from this assms have x: "0 < x" by (rule less_le_trans)
  from floor_log2_bounds[OF x] assms have "power_int (2::rat) a < power_int 2 (floor_log2 x + 1)"
    by simp
  then have "a < floor_log2 x + 1"
    by (metis power_int_increasing not_less one_le_numeral)
  then show ?thesis by simp
qed

lemma floor_log2_less:
  assumes "0 < x" "x < power_int 2 a"
  shows "floor_log2 x < a"
proof -
  from floor_log2_bounds[OF assms(1)] assms(2) have "power_int (2::rat) (floor_log2 x) < power_int 2 a"
    by simp
  then show ?thesis
    by (metis power_int_increasing not_less one_le_numeral)
qed

lemma ulp_normal:
  assumes "power_int 2 (- 1022) \<le> x"
  shows "ulp x = power_int 2 (floor_log2 x) / 2 ^ 52"
proof -
  have "0 < power_int (2::rat) (- 1022)" by simp
  from this assms have x: "0 < x" by (rule less_le_trans)
  from floor_log2_ge[OF assms] have "max (floor_log2 x - 52) (- 1074) = floor_log2 x - 52"
    by simp
  with x show ?thesis by (simp add: ulp_def power_int_diff)
qed

lemma ulp_le:
  assumes "power_int 2 (- 1022) \<le> x"
  shows "ulp x \<le> x / 2 ^ 52"
proof -
  have "0 < power_int (2::rat) (- 1022)" by simp
  from this assms have x: "0 < x" by (rule less_le_trans)
  from floor_log2_bounds[OF x] show ?thesis
    unfolding ulp_normal[OF assms] by (simp add: divide_right_mono)
qed

text \<open>Below \<open>2 ^ 53\<close> the reciprocal of the unit in the last place is an integer.\<close>
lemma ulp_reciprocal:
  assumes "\<bar>x\<bar> < 2 ^ 53"
  shows "\<exists>N::int. 0 < N \<and> of_int N * ulp x = 1"
proof -
  define m where "m = max (floor_log2 \<bar>x\<bar> - 52) (- 1074)"
  have "m \<le> 0"
  proof (cases "x = 0")
    case True
    have "bitlen 1 = 1" by (simp add: bitlen_alt_def)
    then have "floor_log2 0 \<le> 0" by (simp add: floor_log2_def Let_def)
    with True show ?thesis by (simp add: m_def)
  next
    case False
    then have "0 < \<bar>x\<bar>" by simp
    moreover have "\<bar>x\<bar> < power_int 2 53" using assms by simp
    ultimately have "floor_log2 \<bar>x\<bar> < 53" by (rule floor_log2_less)
    then show ?thesis by (simp add: m_def)
  qed
  then have "ulp x = inverse 2 ^ nat (- m)"
    by (auto simp: ulp_def m_def power_int_def)
  moreover have "(2::rat) ^ n * inverse 2 ^ n = 1" for n
    by (simp flip: power_mult_distrib)
  ultimately have "of_int (2 ^ nat (- m)) * ulp x = 1"
    by simp
  moreover have "(0::int) < 2 ^ nat (- m)" by simp
  ultimately show ?thesis by blast
qed

lemma round_double_of_int:
  assumes "\<bar>k\<bar> < 2 ^ 53"
  shows "round_double (of_int k) = of_int k"
proof -
  have "\<bar>of_int k :: rat\<bar> < 2 ^ 53"
    using assms by (metis of_int_abs of_int_less_numeral_power_cancel_iff)
  from ulp_reciprocal[OF this] obtain N :: int where N: "of_int N * ulp (of_int k) = 1" by blast
  have "of_int k = of_int (k * N) * ulp (of_int k)"
    using N by (simp add: mult.assoc)
  then show ?thesis by (rule round_double_exact)
qed

lemma round_double_unit_interval:
  assumes "0 \<le> x" "x \<le> 1"
  shows "0 \<le> round_double x \<and> round_double x \<le> 1"
proof -
  have "\<bar>x\<bar> < 2 ^ 53" using assms by simp
  from ulp_reciprocal[OF this] obtain N :: int where N: "of_int N * ulp x = 1" by blast
  have "of_int 0 * ulp x \<le> round_double x"
    by (rule round_double_ge_multiple) (use assms in simp)
  moreover have "round_double x \<le> of_int N * ulp x"
    by (rule round_double_le_multiple) (use assms N in simp)
  ultimately show ?thesis using N by simp
qed

lemma round_double_relative:
  assumes "power_int 2 (- 1022) \<le> x"
  shows "\<bar>round_double x - x\<bar> \<le> x / 2 ^ 53"
proof -
  have "\<bar>round_double x - x\<bar> \<le> ulp x / 2" by (rule round_double_error)
  also have "\<dots> \<le> (x / 2 ^ 52) / 2" using ulp_le[OF assms] by simp
  finally show ?thesis by simp
qed

lemma finite_double_Inr: "\<bar>x\<bar> < 2 ^ 1024 \<Longrightarrow> finite_double x = Inr x"
  by (simp add: finite_double_def)

lemma py_float_of_int_exact:
  assumes "\<bar>k\<bar> < 2 ^ 53"
  shows "py_float_of_int k = Inr (of_int k)"
proof -
  have "\<bar>of_int k :: rat\<bar> < 2 ^ 53"
    using assms by (metis of_int_abs of_int_less_numeral_power_cancel_iff)
  also have "(2::rat) ^ 53 < 2 ^ 1024" by (rule power_strict_increasing) simp_all
  finally show ?thesis
    by (simp add: py_float_of_int_def round_double_of_int[OF assms] finite_double_Inr)
qed

text \<open>The product \<open>k * 0.6\<close> truncates to \<open>(3 * k) div 5\<close> as long as \<open>k < 2 ^ 51\<close>.\<close>
lemma int_mul_0_6:
  assumes "0 \<le> k" "k < 2 ^ 51"
  shows "py_int_of_float (py_float_mul (of_int k) float_0_6) = (3 * k) div 5"
proof (cases "k = 0")
  case True
  then show ?thesis by (simp add: py_float_mul_def py_int_of_float_def)
next
  case False
  define K :: rat where "K = of_int k"
  define x where "x = K * float_0_6"
  define n where "n = (3 * k) div 5"
  define r where "r = (3 * k) mod 5"
  define P :: rat where "P = power_int 2 (floor_log2 x)"
  have K1: "1 \<le> K" using assms False by (simp add: K_def)
  have "(of_int k :: rat) < of_int (2 ^ 51)" using assms by (simp only: of_int_less_iff)
  then have K2: "K < 2251799813685248" by (simp add: K_def)
  have x5: "5 * x = 3 * K - K / 9007199254740992"
    by (simp add: x_def float_0_6_def)
  have "3 * k = 5 * n + r" by (simp add: n_def r_def)
  then have "(of_int (3 * k) :: rat) = of_int (5 * n + r)" by simp
  then have nr: "3 * K = 5 * of_int n + of_int r" by (simp add: K_def)
  have r: "r = 0 \<or> (1 \<le> r \<and> r \<le> 4)"
  proof -
    have "0 \<le> r" "r < 5" by (simp_all add: r_def)
    then show ?thesis by arith
  qed
  have xpos: "0 < x" using x5 K1 by linarith
  have xn0: "x \<noteq> 0" using xpos by simp
  have half: "power_int 2 (- 1) \<le> x" using x5 K1 by simp
  have norm: "power_int 2 (- 1022) \<le> x"
  proof -
    have "power_int (2::rat) (- 1022) \<le> power_int 2 (- 1)"
      by (rule power_int_increasing) simp_all
    with half show ?thesis by simp
  qed
  have u: "ulp x = P / 4503599627370496"
    using ulp_normal[OF norm] by (simp add: P_def)
  have Px: "P \<le> x" "x < 2 * P"
    using floor_log2_bounds[OF xpos] by (simp_all add: P_def power_int_add)
  have Plo: "1 / 2 \<le> P"
  proof -
    from floor_log2_ge[OF half] have "power_int (2::rat) (- 1) \<le> power_int 2 (floor_log2 x)"
      by (intro power_int_increasing) simp_all
    then show ?thesis by (simp add: P_def)
  qed
  have Phi: "P \<le> 1125899906842624"
  proof -
    have "x < power_int 2 51" using x5 K2 K1 by simp
    from floor_log2_less[OF xpos this] have "floor_log2 x \<le> 50" by simp
    then have "power_int (2::rat) (floor_log2 x) \<le> power_int 2 50"
      by (intro power_int_increasing) simp_all
    then show ?thesis by (simp add: P_def)
  qed
  have "\<bar>x\<bar> < 2 ^ 53" using x5 K2 K1 xpos by simp
  from ulp_reciprocal[OF this] obtain N :: int where N: "of_int N * ulp x = 1" by blast
  have lo: "of_int (n * N) * ulp x - ulp x / 2 < x"
  proof -
    have eq: "of_int (n * N) * ulp x = of_int n" using N by (simp add: mult.assoc)
    have main: "of_int n - ulp x / 2 < x"
    proof -
      from r show ?thesis
      proof
        assume "r = 0"
        with nr x5 have "x = of_int n - K / 45035996273704960" by simp
        moreover have "K < 5 * P" using x5 Px K1 by linarith
        ultimately show ?thesis using u by simp
      next
        assume "1 \<le> r \<and> r \<le> 4"
        then have "(1::rat) \<le> of_int r" by simp
        with nr x5 K2 have "of_int n < x" by linarith
        moreover have "0 < ulp x" by simp
        ultimately show ?thesis by linarith
      qed
    qed
    show ?thesis unfolding eq by (rule main)
  qed
  have hi: "x < of_int ((n + 1) * N - 1) * ulp x + ulp x / 2"
  proof -
    have eq: "of_int ((n + 1) * N - 1) * ulp x = of_int n + 1 - ulp x"
      using N by (simp add: algebra_simps)
    have main: "x < of_int n + 1 - ulp x / 2"
    proof -
      from r have "of_int r \<le> (4::rat)" by auto
      with nr x5 K1 have "x \<le> of_int n + 4 / 5" by linarith
      moreover have "ulp x \<le> 1 / 4" using u Phi by simp
      ultimately show ?thesis by linarith
    qed
    show ?thesis unfolding eq using main by simp
  qed
  have "of_int (n * N) * ulp x \<le> round_double x" by (rule round_double_ge_near[OF xn0 lo])
  then have 1: "of_int n \<le> round_double x" using N by (simp add: mult.assoc)
  have "round_double x \<le> of_int ((n + 1) * N - 1) * ulp x" by (rule round_double_le_near[OF xn0 hi])
  also have "\<dots> = of_int n + 1 - ulp x" using N by (simp add: algebra_simps)
  also have "\<dots> < of_int n + 1" by simp
  finally have 2: "round_double x < of_int n + 1" .
  have "0 \<le> n" using assms by (simp add: n_def)
  with 1 have "0 \<le> round_double x" by (metis of_int_0_le_iff order_trans)
  moreover have "\<lfloor>round_double x\<rfloor> = n" using 1 2 by (simp add: floor_unique)
  ultimately show ?thesis
    by (simp add: py_float_mul_def py_int_of_float_def x_def K_def n_def)
qed

lemma top_count_exact:
  assumes "0 \<le> k" "k < 2 ^ 51"
  shows "top_count k = Inr (nat (max 1 ((3 * k) div 5)))"
proof -
  have "\<bar>k\<bar> < 2 ^ 53" using assms by simp
  then show ?thesis
    by (simp add: top_count_def py_float_of_int_exact int_mul_0_6[OF assms])
qed

lemma top_count_ge_1: "top_count k = Inr n \<Longrightarrow> 1 \<le> n"
  by (auto simp: top_count_def split: sum.splits)

text \<open>For every count a list length can be, the conversion does not overflow and the
  number of top examples does not exceed the count.\<close>
lemma top_count_le:
  assumes "1 \<le> k" "k < 2 ^ 63"
  shows "\<exists>n. top_count k = Inr n \<and> 1 \<le> n \<and> int n \<le> k"
proof -
  define K :: rat where "K = of_int k"
  define x1 where "x1 = round_double K"
  define y where "y = x1 * float_0_6"
  define x2 where "x2 = round_double y"
  have K1: "1 \<le> K" using assms by (simp add: K_def)
  have "(of_int k :: rat) < of_int (2 ^ 63)" using assms by (simp only: of_int_less_iff)
  then have K2: "K < 9223372036854775808" by (simp add: K_def)
  have small: "power_int (2::rat) (- 1022) \<le> 1 / 4"
  proof -
    have "power_int (2::rat) (- 1022) \<le> power_int 2 (- 2)"
      by (rule power_int_increasing) simp_all
    then show ?thesis by simp
  qed
  have "power_int 2 (- 1022) \<le> K" using small K1 by linarith
  from round_double_relative[OF this] have e1: "\<bar>x1 - K\<bar> \<le> K / 9007199254740992"
    by (simp add: x1_def)
  have c: "float_0_6 = 5404319552844595 / 9007199254740992" by (simp add: float_0_6_def)
  have y: "y = x1 * (5404319552844595 / 9007199254740992)" by (simp add: y_def c)
  have ylo: "1 / 4 \<le> y" using e1 K1 unfolding y by linarith
  then have "power_int 2 (- 1022) \<le> y" using small by linarith
  from round_double_relative[OF this] have e2: "\<bar>x2 - y\<bar> \<le> y / 9007199254740992"
    by (simp add: x2_def)
  have x2K: "x2 \<le> K" using e1 e2 K1 unfolding y by linarith
  have x2pos: "0 \<le> x2" using e2 ylo by linarith
  have fin: "\<bar>x1\<bar> < 2 ^ 1024"
  proof -
    have "\<bar>x1\<bar> < 18446744073709551616" using e1 K1 K2 by linarith
    then have "\<bar>x1\<bar> < 2 ^ 64" by simp
    also have "(2::rat) ^ 64 < 2 ^ 1024" by (rule power_strict_increasing) simp_all
    finally show ?thesis .
  qed
  have "\<lfloor>x2\<rfloor> \<le> k"
  proof -
    from x2K have "x2 < of_int k + 1" by (simp add: K_def)
    then show ?thesis by (simp only: floor_le_iff)
  qed
  with assms have "int (nat (max 1 \<lfloor>x2\<rfloor>)) \<le> k" by simp
  moreover have "1 \<le> nat (max 1 \<lfloor>x2\<rfloor>)" by linarith
  moreover have "top_count k = Inr (nat (max 1 \<lfloor>x2\<rfloor>))"
    using fin x2pos
    by (simp add: top_count_def py_float_of_int_def finite_double_Inr py_float_mul_def
        py_int_of_float_def x1_def[symmetric] K_def[symmetric] y_def[symmetric] x2_def[symmetric])
  ultimately show ?thesis by blast
qed

lemma py_truediv_unit:
  assumes "0 \<le> a" "a \<le> b" "1 \<le> b"
  shows "\<exists>r. py_truediv a b = Inr r \<and> 0 \<le> r \<and> r \<le> 1"
proof -
  let ?x = "of_int a / of_int b :: rat"
  have "0 \<le> ?x" "?x \<le> 1" using assms by (simp_all add: divide_le_eq_1)
  from round_double_unit_interval[OF this]
  have r: "0 \<le> round_double ?x" "round_double ?x \<le> 1" by simp_all
  then have "\<bar>round_double ?x\<bar> \<le> 1" by simp
  also have "(1::rat) < 2 ^ 1024" by simp
  finally show ?thesis using assms r by (simp add: py_truediv_def finite_double_Inr)
qed

lemma py_truediv_self: "1 \<le> a \<Longrightarrow> py_truediv a a = Inr 1"
  using round_double_of_int[of 1] by (simp add: py_truediv_def finite_double_def)

lemma py_truediv_0: "1 \<le> b \<Longrightarrow> py_truediv 0 b = Inr 0"
  by (simp add: py_truediv_def finite_double_def)

lemma jaccard_unit: "\<exists>r. jaccard I E = Inr r \<and> 0 \<le> r \<and> r \<le> 1"
proof -
  have "I |\<inter>| E |\<subseteq>| I |\<union>| E" by auto
  then have "fcard (I |\<inter>| E) \<le> fcard (I |\<union>| E)" by (rule fcard_mono)
  then show ?thesis
    unfolding jaccard_def by (intro py_truediv_unit) simp_all
qed

lemma jaccard_commute: "jaccard I E = jaccard E I"
  by (simp add: jaccard_def inf_commute sup_commute)

lemma jaccard_self: "I \<noteq> {||} \<Longrightarrow> jaccard I I = Inr 1"
proof -
  assume "I \<noteq> {||}"
  then have "1 \<le> int (fcard I)" by (simp add: Suc_le_eq fcard_0_eq[symmetric] del: fcard_0_eq)
  then show ?thesis by (simp add: jaccard_def py_truediv_self max_absorb2)
qed

lemma jaccard_empty: "jaccard {||} {||} = Inr 0"
  by (simp add: jaccard_def py_truediv_0 fcard_fempty)

lemma jaccard_empty_left: "jaccard {||} E = Inr 0"
  by (simp add: jaccard_def py_truediv_0 fcard_fempty)

subsection \<open>Example selector\<close>

lemma jaccard_similarity:
  "jaccard (fset_of_list (tokenize_sentence (lower s)))
     (fset_of_list (tokenize_sentence (lower (bangla_speech ex)))) = Inr (similarity lower s ex)"
  using jaccard_unit[of "fset_of_list (tokenize_sentence (lower s))"
      "fset_of_list (tokenize_sentence (lower (bangla_speech ex)))"]
  by (auto simp: similarity_def)

lemma score_examples_eq:
  "score_examples lower (fset_of_list (tokenize_sentence (lower s))) exs =
     Inr (map (\<lambda>ex. (similarity lower s ex, ex)) exs)"
  by (induction exs) (simp_all add: jaccard_similarity)

lemma ranked_examples_eq:
  "ranked_examples lower s exs =
     Inr (py_sort_reverse fst (map (\<lambda>ex. (similarity lower s ex, ex)) exs))"
  by (simp add: ranked_examples_def score_examples_eq)

lemma similarity_unit: "0 \<le> similarity lower s ex \<and> similarity lower s ex \<le> 1"
  using jaccard_unit[of "fset_of_list (tokenize_sentence (lower s))"
      "fset_of_list (tokenize_sentence (lower (bangla_speech ex)))"]
  by (auto simp: similarity_def)

lemma similarity_same_source:
  assumes "bangla_speech ex = s"
  shows "similarity lower s ex =
     (if fset_of_list (tokenize_sentence (lower s)) = {||} then 0 else 1)"
  using assms by (simp add: similarity_def jaccard_self jaccard_empty)

lemma similarity_no_tokens:
  "fset_of_list (tokenize_sentence (lower s)) = {||} \<Longrightarrow> similarity lower s ex = 0"
  by (simp add: similarity_def jaccard_empty_left)

subsection \<open>The sort\<close>

lemma mset_py_sort_reverse [simp]: "mset (py_sort_reverse key xs) = mset xs"
  by (simp add: py_sort_reverse_def)

lemma length_py_sort_reverse [simp]: "length (py_sort_reverse key xs) = length xs"
  by (simp add: py_sort_reverse_def)

lemma set_py_sort_reverse [simp]: "set (py_sort_reverse key xs) = set xs"
  by (simp add: py_sort_reverse_def)

lemma py_sort_reverse_descending:
  "sorted_wrt (\<lambda>a b. key b \<le> key a) (py_sort_reverse key xs)"
proof -
  have "sorted (map key (sort_key key (rev xs)))" by simp
  then have "sorted_wrt (\<lambda>a b. key a \<le> key b) (sort_key key (rev xs))"
    by (simp only: sorted_map)
  then show ?thesis
    by (simp add: py_sort_reverse_def sorted_wrt_rev)
qed

lemma py_sort_reverse_stable:
  "filter (\<lambda>x. key x = v) (py_sort_reverse key xs) = filter (\<lambda>x. key x = v) xs"
  by (simp add: py_sort_reverse_def rev_filter[symmetric] sort_key_stable)

lemma descending_max_prefix:
  assumes "sorted_wrt (\<lambda>a b. key b \<le> key a) S" "\<forall>x\<in>set S. key x \<le> (M::'k::linorder)"
  shows "filter (\<lambda>x. key x = M) S = takeWhile (\<lambda>x. key x = M) S"
  using assms
proof (induction S)
  case Nil
  show ?case by simp
next
  case (Cons a S)
  show ?case
  proof (cases "key a = M")
    case True
    with Cons show ?thesis by simp
  next
    case False
    with Cons.prems have "\<forall>x\<in>set S. key x \<noteq> M" by fastforce
    then have "filter (\<lambda>x. key x = M) S = []" by (simp add: filter_empty_conv)
    with False show ?thesis by simp
  qed
qed

lemma filter_take_subset: "set (filter P (take n xs)) \<subseteq> set (take n (filter P xs))"
proof (induction xs arbitrary: n)
  case Nil
  show ?case by simp
next
  case (Cons a xs)
  show ?case
  proof (cases n)
    case 0
    then show ?thesis by simp
  next
    case (Suc m)
    have "set (take m (filter P xs)) \<subseteq> set (take (Suc m) (filter P xs))"
      by (rule set_take_subset_set_take) simp
    with Cons[of m] Suc show ?thesis by auto
  qed
qed

lemma take_takeWhile_subset: "set (take n (takeWhile P xs)) \<subseteq> set (take n xs)"
proof -
  have "take n (takeWhile P xs) = take (min n (length (takeWhile P xs))) xs"
    by (subst takeWhile_eq_take) (simp add: min.commute)
  also have "set \<dots> \<subseteq> set (take n xs)"
    by (rule set_take_subset_set_take) simp
  finally show ?thesis .
qed

text \<open>An element whose key is the largest stands, after the sort, no later than
  in the original list.\<close>
lemma max_key_in_prefix:
  assumes "i < length xs" "\<forall>x\<in>set xs. key x \<le> key (xs ! i)"
  shows "xs ! i \<in> set (take (Suc i) (py_sort_reverse key xs))"
proof -
  let ?M = "key (xs ! i)"
  let ?S = "py_sort_reverse key xs"
  let ?P = "\<lambda>x. key x = ?M"
  have "xs ! i \<in> set (take (Suc i) xs)"
    using assms(1) by (simp add: take_Suc_conv_app_nth)
  then have "xs ! i \<in> set (filter ?P (take (Suc i) xs))" by simp
  with filter_take_subset[of ?P "Suc i" xs] have "xs ! i \<in> set (take (Suc i) (filter ?P xs))"
    by (rule rev_subsetD[rotated])
  also have "filter ?P xs = filter ?P ?S" by (simp add: py_sort_reverse_stable)
  also have "\<dots> = takeWhile ?P ?S"
    by (rule descending_max_prefix) (use assms(2) in \<open>simp_all add: py_sort_reverse_descending\<close>)
  finally show ?thesis using take_takeWhile_subset[of "Suc i" ?P ?S]
    by (rule rev_subsetD)
qed

lemma select_small_pool_eq:
  "int (length P) \<le> k \<Longrightarrow> select_fewshot_examples lower sample shuffle s P k = Inr P"
  by (simp add: select_fewshot_examples_def)

lemma select_large_pool:
  assumes "k < int (length P)" "top_count k = Inr n" "int n \<le> k"
  shows "select_fewshot_examples lower sample shuffle s P k =
     Inr (shuffle (map snd (take n (py_sort_reverse fst (map (\<lambda>ex. (similarity lower s ex, ex)) P))) @
       sample (map snd (drop n (py_sort_reverse fst (map (\<lambda>ex. (similarity lower s ex, ex)) P))))
         (nat k - n)))"
proof -
  let ?R = "py_sort_reverse fst (map (\<lambda>ex. (similarity lower s ex, ex)) P)"
  from assms have n: "n < length P" by linarith
  then have lt: "length (map snd (take n ?R)) = n" by simp
  have lr: "length (map snd (drop n ?R)) = length P - n" by simp
  have m: "min (int (length P - n)) (k - int n) = k - int n" using assms n by linarith
  have "py_random_sample sample (map snd (drop n ?R))
          (min (int (length (map snd (drop n ?R)))) (k - int (length (map snd (take n ?R))))) =
        Inr (sample (map snd (drop n ?R)) (nat k - n))"
    unfolding lt lr m py_random_sample_def using assms n by (simp add: nat_diff_distrib')
  then show ?thesis
    using assms(1,2)
    by (simp add: select_fewshot_examples_def ranked_examples_eq Let_def)
qed

lemma py_random_sample_negative: "k < 0 \<Longrightarrow> py_random_sample sample xs k = Inl ValueError"
  by (simp add: py_random_sample_def)

lemma select_nonpositive_raises:
  assumes "k \<le> 0" "k < int (length P)"
  shows "\<exists>e. select_fewshot_examples lower sample shuffle s P k = Inl e"
proof (cases "top_count k")
  case (Inl e)
  with assms(2) show ?thesis
    by (simp add: select_fewshot_examples_def ranked_examples_eq)
next
  case (Inr n)
  let ?R = "py_sort_reverse fst (map (\<lambda>ex. (similarity lower s ex, ex)) P)"
  from top_count_ge_1[OF Inr] have n: "1 \<le> n" .
  have "k - int (length (map snd (take n ?R))) < 0"
  proof (cases "P = []")
    case True
    with assms(2) show ?thesis by simp
  next
    case False
    then have "1 \<le> length P" by (simp add: Suc_le_eq)
    with n have "1 \<le> int (min (length P) n)" by simp
    moreover have "length (map snd (take n ?R)) = min (length P) n" by simp
    ultimately show ?thesis using assms(1) by linarith
  qed
  then have "min (int (length (map snd (drop n ?R)))) (k - int (length (map snd (take n ?R)))) < 0"
    by (simp only: min_less_iff_disj simp_thms)
  then have "py_random_sample sample (map snd (drop n ?R))
          (min (int (length (map snd (drop n ?R)))) (k - int (length (map snd (take n ?R))))) =
        Inl ValueError"
    by (rule py_random_sample_negative)
  then show ?thesis
    using assms(2) Inr
    by (simp add: select_fewshot_examples_def ranked_examples_eq Let_def)
qed

lemma shuffle_contract_mset: "shuffle_contract shuffle \<Longrightarrow> mset (shuffle xs) = mset xs"
  by (simp add: shuffle_contract_def)

lemma shuffle_contract_length: "shuffle_contract shuffle \<Longrightarrow> length (shuffle xs) = length xs"
  using shuffle_contract_mset[of shuffle xs] by (metis size_mset)

lemma shuffle_contract_set: "shuffle_contract shuffle \<Longrightarrow> set (shuffle xs) = set xs"
  using shuffle_contract_mset[of shuffle xs] by (metis set_mset_mset)

lemma sample_contract_length:
  "sample_contract sample \<Longrightarrow> k \<le> length xs \<Longrightarrow> length (sample xs k) = k"
  by (simp add: sample_contract_def)

lemma select_large_pool_result:
  assumes "sample_contract sample" "shuffle_contract shuffle"
    and "1 \<le> k" "k < int (length P)" "length P < 2 ^ 63"
  shows "\<exists>n R out. top_count k = Inr n \<and> 1 \<le> n \<and> int n \<le> k \<and>
     ranked_examples lower s P = Inr R \<and> length R = length P \<and>
     select_fewshot_examples lower sample shuffle s P k = Inr out \<and>
     length out = nat k \<and> mset (map snd (take n R)) \<subseteq># mset out"
proof -
  let ?R = "py_sort_reverse fst (map (\<lambda>ex. (similarity lower s ex, ex)) P)"
  have "int (length P) < 2 ^ 63" using assms(5) by (metis of_nat_less_numeral_power_cancel_iff)
  with assms(4) have "k < 2 ^ 63" by simp
  from top_count_le[OF assms(3) this] obtain n where
    n: "top_count k = Inr n" "1 \<le> n" "int n \<le> k" by blast
  let ?top = "map snd (take n ?R)"
  let ?rem = "map snd (drop n ?R)"
  let ?out = "shuffle (?top @ sample ?rem (nat k - n))"
  have sel: "select_fewshot_examples lower sample shuffle s P k = Inr ?out"
    by (rule select_large_pool[OF assms(4) n(1) n(3)])
  have nP: "n < length P" using n(3) assms(4) by linarith
  have "nat k - n \<le> length ?rem" using assms(4) by simp
  then have ls: "length (sample ?rem (nat k - n)) = nat k - n"
    by (rule sample_contract_length[OF assms(1)])
  have "length ?out = nat k"
    using n(3) nP by (simp add: shuffle_contract_length[OF assms(2)] ls)
  moreover have "mset ?top \<subseteq># mset ?out"
    by (simp add: shuffle_contract_mset[OF assms(2)])
  ultimately show ?thesis
    using n sel ranked_examples_eq[of lower s P] by (intro exI[of _ n] exI[of _ ?R] exI[of _ ?out]) simp
qed

subsection \<open>The selector on concrete pools\<close>

lemma sample_prefix_contract: "sample_contract sample_prefix"
  by (simp add: sample_contract_def sample_prefix_def)
    (metis append_take_drop_id mset_subset_eq_add_left union_code)

lemma shuffle_reverse_contract: "shuffle_contract shuffle_reverse"
  by (simp add: shuffle_contract_def shuffle_reverse_def)

lemma floor_0_6: "\<lfloor>6 / 10 * of_int k :: rat\<rfloor> = (3 * k) div 5"
proof -
  have "(6 / 10 * of_int k :: rat) = of_int (3 * k) / of_int 5" by simp
  then show ?thesis by (simp only: floor_divide_of_int_eq)
qed

lemma select_example_eval:
  "select_fewshot_examples lower_ascii sample_prefix shuffle_reverse [2455]
       [\<lparr>bangla_speech = [2453], sylhet_bangla_speech = [2454]\<rparr>,
        \<lparr>bangla_speech = [2455], sylhet_bangla_speech = [2456]\<rparr>,
        \<lparr>bangla_speech = [2457], sylhet_bangla_speech = [2458]\<rparr>] 2 =
   Inr [\<lparr>bangla_speech = [2453], sylhet_bangla_speech = [2454]\<rparr>,
        \<lparr>bangla_speech = [2455], sylhet_bangla_speech = [2456]\<rparr>]"
  by code_simp

lemma ranked_example_eval:
  "ranked_examples lower_ascii [2455]
       [\<lparr>bangla_speech = [2453], sylhet_bangla_speech = [2454]\<rparr>,
        \<lparr>bangla_speech = [2455], sylhet_bangla_speech = [2456]\<rparr>,
        \<lparr>bangla_speech = [2457], sylhet_bangla_speech = [2458]\<rparr>] =
   Inr [(1, \<lparr>bangla_speech = [2455], sylhet_bangla_speech = [2456]\<rparr>),
        (0, \<lparr>bangla_speech = [2453], sylhet_bangla_speech = [2454]\<rparr>),
        (0, \<lparr>bangla_speech = [2457], sylhet_bangla_speech = [2458]\<rparr>)]"
  by code_simp

subsection \<open>Claims about the example selector\<close>

text \<open>
  C4.  For every sentence, pool and count with \<open>len(examples) <= num_examples\<close>, the selector
  returns the pool itself: the same elements in the same order, whatever \<open>random.sample\<close>
  and \<open>random.shuffle\<close> would do, since neither is reached.
\<close>

theorem select_small_pool:
  "int (length P) \<le> k \<Longrightarrow> select_fewshot_examples lower sample shuffle s P k = Inr P"
  by (simp add: select_fewshot_examples_def)

theorem select_small_pool_witness:
  "int (length [\<lparr>bangla_speech = [2453], sylhet_bangla_speech = [2454]\<rparr>,
                \<lparr>bangla_speech = [2455], sylhet_bangla_speech = [2456]\<rparr>,
                \<lparr>bangla_speech = [2457], sylhet_bangla_speech = [2458]\<rparr>]) \<le> 5 \<and>
   select_fewshot_examples lower_ascii sample_prefix shuffle_reverse [2453, 32, 2455]
     [\<lparr>bangla_speech = [2453], sylhet_bangla_speech = [2454]\<rparr>,
      \<lparr>bangla_speech = [2455], sylhet_bangla_speech = [2456]\<rparr>,
      \<lparr>bangla_speech = [2457], sylhet_bangla_speech = [2458]\<rparr>] 5 =
   Inr [\<lparr>bangla_speech = [2453], sylhet_bangla_speech = [2454]\<rparr>,
        \<lparr>bangla_speech = [2455], sylhet_bangla_speech = [2456]\<rparr>,
        \<lparr>bangla_speech = [2457], sylhet_bangla_speech = [2458]\<rparr>]"
  using select_small_pool[of "[\<lparr>bangla_speech = [2453], sylhet_bangla_speech = [2454]\<rparr>,
      \<lparr>bangla_speech = [2455], sylhet_bangla_speech = [2456]\<rparr>,
      \<lparr>bangla_speech = [2457], sylhet_bangla_speech = [2458]\<rparr>]" 5
      lower_ascii sample_prefix shuffle_reverse "[2453, 32, 2455]"]
  by simp

text \<open>
  C2, at the failing input.  For a count of zero and a pool of one example (so that
  \<open>len(examples) > num_examples\<close>), whatever the sentence and the example, the selector does
  not return: \<open>top_examples\<close> holds one example, the requested sample size is
  \<open>min(len(remaining), 0 - 1) = -1\<close>, and \<open>random.sample\<close> raises \<open>ValueError\<close>.
  (\<open>select_nonpositive_raises\<close> shows the same for every count \<open>k <= 0\<close> and every pool
  with more than \<open>k\<close> elements.)
\<close>

theorem select_zero_raises:
  "select_fewshot_examples lower sample shuffle s [ex] 0 = Inl ValueError"
proof -
  have "top_count 0 = Inr 1" using top_count_exact[of 0] by simp
  then show ?thesis
    by (simp add: select_fewshot_examples_def ranked_examples_eq py_random_sample_def
        py_sort_reverse_def Let_def)
qed

text \<open>
  C1, as the code has it, for counts \<open>k >= 1\<close>.  For every sentence and every pool \<open>P\<close> with
  \<open>len(P) > k\<close> (a Python list has fewer than \<open>2 ^ 63\<close> elements), the selector returns
  at most \<open>k\<close> examples and at least \<open>max(1, floor(0.6 * k))\<close> examples, and the returned
  examples include, with multiplicity, the top tranche: the first \<open>n\<close> examples of the
  similarity-descending order, where \<open>n\<close> is the selector's \<open>max(1, int(k * 0.6))\<close>, which
  is \<open>max(1, floor(0.6 * k))\<close> for every \<open>k\<close> below \<open>2 ^ 51\<close>.
\<close>

theorem select_large_pool_bounds:
  assumes "sample_contract sample" "shuffle_contract shuffle"
    and "1 \<le> k" "k < int (length P)" "length P < 2 ^ 63"
  shows "\<exists>n R out. top_count k = Inr n \<and> ranked_examples lower s P = Inr R \<and>
     select_fewshot_examples lower sample shuffle s P k = Inr out \<and>
     length out \<le> nat k \<and> nat (max 1 \<lfloor>6 / 10 * of_int k :: rat\<rfloor>) \<le> length out \<and>
     n \<le> length out \<and> mset (map snd (take n R)) \<subseteq># mset out \<and>
     (k < 2 ^ 51 \<longrightarrow> n = nat (max 1 \<lfloor>6 / 10 * of_int k :: rat\<rfloor>))"
proof -
  from select_large_pool_result[OF assms, of lower s]
  obtain n R out where r: "top_count k = Inr n" "1 \<le> n" "int n \<le> k"
    "ranked_examples lower s P = Inr R"
    "select_fewshot_examples lower sample shuffle s P k = Inr out" "length out = nat k"
    "mset (map snd (take n R)) \<subseteq># mset out"
    by blast
  have "nat (max 1 ((3 * k) div 5)) \<le> nat k" using assms(3) by simp
  then have a: "nat (max 1 \<lfloor>6 / 10 * of_int k :: rat\<rfloor>) \<le> length out"
    by (simp only: floor_0_6 r(6))
  have b: "n \<le> length out" using r(3,6) by simp
  have c: "n = nat (max 1 \<lfloor>6 / 10 * of_int k :: rat\<rfloor>)" if "k < 2 ^ 51"
  proof -
    have "0 \<le> k" using assms(3) by simp
    from top_count_exact[OF this that] r(1) have "n = nat (max 1 ((3 * k) div 5))" by simp
    then show ?thesis by (simp only: floor_0_6)
  qed
  have d: "length out \<le> nat k" using r(6) by simp
  from r(1,4,5,7) a b c d show ?thesis by blast
qed

theorem select_large_pool_bounds_witness:
  "sample_contract (sample_prefix :: example list \<Rightarrow> nat \<Rightarrow> example list) \<and>
   shuffle_contract (shuffle_reverse :: example list \<Rightarrow> example list) \<and>
   (1::int) \<le> 2 \<and>
   (2::int) < int (length [\<lparr>bangla_speech = [2453], sylhet_bangla_speech = [2454]\<rparr>,
        \<lparr>bangla_speech = [2455], sylhet_bangla_speech = [2456]\<rparr>,
        \<lparr>bangla_speech = [2457], sylhet_bangla_speech = [2458]\<rparr>]) \<and>
   length [\<lparr>bangla_speech = [2453], sylhet_bangla_speech = [2454]\<rparr>,
        \<lparr>bangla_speech = [2455], sylhet_bangla_speech = [2456]\<rparr>,
        \<lparr>bangla_speech = [2457::nat], sylhet_bangla_speech = [2458::nat]\<rparr>] < 2 ^ 63 \<and>
   (2::int) < 2 ^ 51 \<and>
   top_count 2 = Inr 1 \<and>
   select_fewshot_examples lower_ascii sample_prefix shuffle_reverse [2455]
       [\<lparr>bangla_speech = [2453], sylhet_bangla_speech = [2454]\<rparr>,
        \<lparr>bangla_speech = [2455], sylhet_bangla_speech = [2456]\<rparr>,
        \<lparr>bangla_speech = [2457], sylhet_bangla_speech = [2458]\<rparr>] 2 =
   Inr [\<lparr>bangla_speech = [2453], sylhet_bangla_speech = [2454]\<rparr>,
        \<lparr>bangla_speech = [2455], sylhet_bangla_speech = [2456]\<rparr>] \<and>
   mset (map snd (take 1
       [(1::rat, \<lparr>bangla_speech = [2455], sylhet_bangla_speech = [2456]\<rparr>),
        (0, \<lparr>bangla_speech = [2453], sylhet_bangla_speech = [2454]\<rparr>),
        (0, \<lparr>bangla_speech = [2457], sylhet_bangla_speech = [2458]\<rparr>)])) \<subseteq>#
   mset [\<lparr>bangla_speech = [2453], sylhet_bangla_speech = [2454]\<rparr>,
        \<lparr>bangla_speech = [2455::nat], sylhet_bangla_speech = [2456::nat]\<rparr>]"
proof -
  let ?P = "[\<lparr>bangla_speech = [2453], sylhet_bangla_speech = [2454]\<rparr>,
        \<lparr>bangla_speech = [2455], sylhet_bangla_speech = [2456]\<rparr>,
        \<lparr>bangla_speech = [2457::nat], sylhet_bangla_speech = [2458::nat]\<rparr>]"
  have h: "(1::int) \<le> 2" "(2::int) < int (length ?P)" "length ?P < 2 ^ 63" "(2::int) < 2 ^ 51"
    by simp_all
  from select_large_pool_bounds[OF sample_prefix_contract shuffle_reverse_contract h(1,2,3),
      of lower_ascii "[2455]"]
  obtain n R out where r: "top_count 2 = Inr n" "ranked_examples lower_ascii [2455] ?P = Inr R"
    "select_fewshot_examples lower_ascii sample_prefix shuffle_reverse [2455] ?P 2 = Inr out"
    "mset (map snd (take n R)) \<subseteq># mset out"
    "2 < (2::int) ^ 51 \<longrightarrow> n = nat (max 1 \<lfloor>6 / 10 * of_int 2 :: rat\<rfloor>)"
    by blast
  from r(5) h(4) have n: "n = 1" by simp
  from r(2) have R: "R = [(1, \<lparr>bangla_speech = [2455], sylhet_bangla_speech = [2456]\<rparr>),
        (0, \<lparr>bangla_speech = [2453], sylhet_bangla_speech = [2454]\<rparr>),
        (0, \<lparr>bangla_speech = [2457], sylhet_bangla_speech = [2458]\<rparr>)]"
    by (simp only: ranked_example_eval sum.inject)
  from r(3) have out: "out = [\<lparr>bangla_speech = [2453], sylhet_bangla_speech = [2454]\<rparr>,
        \<lparr>bangla_speech = [2455], sylhet_bangla_speech = [2456]\<rparr>]"
    by (simp only: select_example_eval sum.inject)
  from r(1) n have 1: "top_count 2 = Inr 1" by simp
  from r(4) have 2: "mset (map snd (take 1
       [(1::rat, \<lparr>bangla_speech = [2455], sylhet_bangla_speech = [2456]\<rparr>),
        (0, \<lparr>bangla_speech = [2453], sylhet_bangla_speech = [2454]\<rparr>),
        (0, \<lparr>bangla_speech = [2457], sylhet_bangla_speech = [2458]\<rparr>)])) \<subseteq>#
   mset [\<lparr>bangla_speech = [2453], sylhet_bangla_speech = [2454]\<rparr>,
        \<lparr>bangla_speech = [2455::nat], sylhet_bangla_speech = [2456::nat]\<rparr>]"
    unfolding n R out .
  from sample_prefix_contract[where ?'a = example] shuffle_reverse_contract[where ?'a = example]
    h 1 select_example_eval 2
  show ?thesis by (intro conjI)
qed

text \<open>
  C1 as stated covers every count with \<open>len(P) > k\<close>, also \<open>k <= 0\<close>.  For the count 0 and a
  pool of one example the selector returns no list at all (it raises \<open>ValueError\<close>), so
  it does not return at most \<open>k\<close> and at least one example.
\<close>

theorem select_zero_counterexample:
  "(0::int) < int (length [\<lparr>bangla_speech = [2453], sylhet_bangla_speech = [2454]\<rparr>]) \<and>
   select_fewshot_examples lower_ascii sample_prefix shuffle_reverse [2453]
     [\<lparr>bangla_speech = [2453], sylhet_bangla_speech = [2454]\<rparr>] 0 = Inl ValueError"
proof -
  have "top_count 0 = Inr 1" using top_count_exact[of 0] by simp
  then show ?thesis
    by (simp add: select_fewshot_examples_def ranked_examples_eq py_random_sample_def
        py_sort_reverse_def Let_def)
qed

text \<open>
  C6.  The similarity of two token sets, \<open>|I \<inter> E| / max(1, |I \<union> E|)\<close> as the selector computes
  it, is symmetric in its arguments, always has a value, which lies between 0 and 1,
  is 1 when the two sets are equal and not empty, and is 0 when both are empty.
\<close>

theorem jaccard_properties:
  "jaccard I E = jaccard E I \<and>
   (\<exists>r. jaccard I E = Inr r \<and> 0 \<le> r \<and> r \<le> 1) \<and>
   (I = E \<and> I \<noteq> {||} \<longrightarrow> jaccard I E = Inr 1) \<and>
   (I = {||} \<and> E = {||} \<longrightarrow> jaccard I E = Inr 0)"
  using jaccard_commute[of I E] jaccard_unit[of I E] jaccard_self[of I] jaccard_empty
  by auto

theorem jaccard_properties_witness:
  "{|[2453], [2455]|} \<noteq> {||} \<and> jaccard {|[2453], [2455]|} {|[2453], [2455]|} = Inr 1 \<and>
   jaccard {||} {||} = Inr 0 \<and>
   jaccard {|[2453], [2455]|} {|[2455], [2457]|} = jaccard {|[2455], [2457]|} {|[2453], [2455]|}"
  using jaccard_properties[of "{|[2453], [2455]|}" "{|[2453], [2455]|}"]
    jaccard_properties[of "{||}" "{||}"]
    jaccard_properties[of "{|[2453], [2455]|}" "{|[2455], [2457]|}"]
  by simp

text \<open>
  C5.  The sort of the scored examples is stable.  For every sentence and pool the sorted
  list \<open>R\<close> of pairs (similarity, example) is a rearrangement of the pool, each example
  with its own similarity, in descending order of similarity; and for every score \<open>v\<close>
  the examples of similarity \<open>v\<close> stand in \<open>R\<close> in their pool order, hence also in any
  split of \<open>R\<close> into a top tranche \<open>R[:n]\<close> followed by the remaining \<open>R[n:]\<close>.
\<close>

theorem ranked_examples_stable:
  "\<exists>R. ranked_examples lower s P = Inr R \<and>
     mset (map snd R) = mset P \<and>
     map fst R = map (similarity lower s) (map snd R) \<and>
     sorted_wrt (\<lambda>a b. fst b \<le> fst a) R \<and>
     (\<forall>v. map snd (filter (\<lambda>x. fst x = v) R) = filter (\<lambda>ex. similarity lower s ex = v) P) \<and>
     (\<forall>v n. filter (\<lambda>ex. similarity lower s ex = v) (map snd (take n R)) @
             filter (\<lambda>ex. similarity lower s ex = v) (map snd (drop n R)) =
             filter (\<lambda>ex. similarity lower s ex = v) P)"
proof -
  let ?sc = "map (\<lambda>ex. (similarity lower s ex, ex)) P"
  let ?R = "py_sort_reverse fst ?sc"
  have fs: "fst x = similarity lower s (snd x)" if "x \<in> set ?R" for x
    using that by auto
  have 1: "mset (map snd ?R) = mset P"
    by (simp add: multiset.map_comp o_def)
  have 2: "map fst ?R = map (similarity lower s) (map snd ?R)"
    using fs by simp
  have 3: "map snd (filter (\<lambda>x. fst x = v) ?R) = filter (\<lambda>ex. similarity lower s ex = v) P" for v
    by (simp add: py_sort_reverse_stable filter_map o_def)
  have 4: "filter (\<lambda>ex. similarity lower s ex = v) (map snd (take n ?R)) @
        filter (\<lambda>ex. similarity lower s ex = v) (map snd (drop n ?R)) =
        filter (\<lambda>ex. similarity lower s ex = v) P" for v n
  proof -
    have "filter (\<lambda>ex. similarity lower s ex = v) (map snd (take n ?R)) @
        filter (\<lambda>ex. similarity lower s ex = v) (map snd (drop n ?R)) =
        filter (\<lambda>ex. similarity lower s ex = v) (map snd (take n ?R @ drop n ?R))"
      by (simp only: map_append filter_append)
    also have "\<dots> = map snd (filter (\<lambda>x. similarity lower s (snd x) = v) ?R)"
      by (simp add: filter_map o_def)
    also have "filter (\<lambda>x. similarity lower s (snd x) = v) ?R = filter (\<lambda>x. fst x = v) ?R"
      by (rule filter_cong) (simp_all add: fs)
    finally show ?thesis by (simp only: 3)
  qed
  show ?thesis
    using ranked_examples_eq[of lower s P] 1 2 3 4 py_sort_reverse_descending[of fst ?sc]
    by (intro exI[of _ ?R]) blast
qed

theorem ranked_examples_stable_witness:
  "ranked_examples lower_ascii [2455]
       [\<lparr>bangla_speech = [2453], sylhet_bangla_speech = [2454]\<rparr>,
        \<lparr>bangla_speech = [2455], sylhet_bangla_speech = [2456]\<rparr>,
        \<lparr>bangla_speech = [2457], sylhet_bangla_speech = [2458]\<rparr>] =
   Inr [(1, \<lparr>bangla_speech = [2455], sylhet_bangla_speech = [2456]\<rparr>),
        (0, \<lparr>bangla_speech = [2453], sylhet_bangla_speech = [2454]\<rparr>),
        (0, \<lparr>bangla_speech = [2457], sylhet_bangla_speech = [2458]\<rparr>)] \<and>
   filter (\<lambda>ex. similarity lower_ascii [2455] ex = 0)
       [\<lparr>bangla_speech = [2453], sylhet_bangla_speech = [2454]\<rparr>,
        \<lparr>bangla_speech = [2455], sylhet_bangla_speech = [2456]\<rparr>,
        \<lparr>bangla_speech = [2457], sylhet_bangla_speech = [2458]\<rparr>] =
   [\<lparr>bangla_speech = [2453], sylhet_bangla_speech = [2454]\<rparr>,
    \<lparr>bangla_speech = [2457], sylhet_bangla_speech = [2458]\<rparr>]"
proof -
  let ?P = "[\<lparr>bangla_speech = [2453], sylhet_bangla_speech = [2454]\<rparr>,
        \<lparr>bangla_speech = [2455], sylhet_bangla_speech = [2456]\<rparr>,
        \<lparr>bangla_speech = [2457::nat], sylhet_bangla_speech = [2458::nat]\<rparr>]"
  from ranked_examples_stable[of lower_ascii "[2455]" ?P]
  obtain R where r: "ranked_examples lower_ascii [2455] ?P = Inr R"
    "\<forall>v. map snd (filter (\<lambda>x. fst x = v) R) = filter (\<lambda>ex. similarity lower_ascii [2455] ex = v) ?P"
    by blast
  from r(1) have R: "R = [(1, \<lparr>bangla_speech = [2455], sylhet_bangla_speech = [2456]\<rparr>),
        (0, \<lparr>bangla_speech = [2453], sylhet_bangla_speech = [2454]\<rparr>),
        (0, \<lparr>bangla_speech = [2457], sylhet_bangla_speech = [2458]\<rparr>)]"
    by (simp only: ranked_example_eval sum.inject)
  from r(2)[rule_format, of 0] have "filter (\<lambda>ex. similarity lower_ascii [2455] ex = 0) ?P =
     [\<lparr>bangla_speech = [2453], sylhet_bangla_speech = [2454]\<rparr>,
      \<lparr>bangla_speech = [2457], sylhet_bangla_speech = [2458]\<rparr>]"
    unfolding R by simp
  with ranked_example_eval show ?thesis by (intro conjI)
qed

text \<open>
  C7, as the code has it.  For every pool of 10 examples and the count 5, if the input
  sentence is the source sentence of example #3, the third example \<open>P[2]\<close> of the pool, then
  \<open>top_n\<close> is 3, the third example is among the first three of the sorted list, and it is
  in the list the selector returns.  Its similarity is the largest of the pool: 1 when
  the sentence has at least one token; with no token every similarity is 0, and the
  stable sort keeps the third example among the first three.
\<close>

theorem identical_sentence_in_top_tranche:
  assumes "sample_contract sample" "shuffle_contract shuffle"
    and "length P = 10" "bangla_speech (P ! 2) = s"
  shows "\<exists>R out. ranked_examples lower s P = Inr R \<and> top_count 5 = Inr 3 \<and>
     P ! 2 \<in> set (map snd (take 3 R)) \<and>
     select_fewshot_examples lower sample shuffle s P 5 = Inr out \<and> P ! 2 \<in> set out \<and>
     (\<forall>ex\<in>set P. similarity lower s ex \<le> similarity lower s (P ! 2)) \<and>
     (tokenize_sentence (lower s) \<noteq> [] \<longrightarrow> similarity lower s (P ! 2) = 1)"
proof -
  let ?sc = "map (\<lambda>ex. (similarity lower s ex, ex)) P"
  let ?R = "py_sort_reverse fst ?sc"
  let ?top = "map snd (take 3 ?R)"
  let ?rem = "map snd (drop 3 ?R)"
  let ?out = "shuffle (?top @ sample ?rem (nat 5 - 3))"
  have tc: "top_count 5 = Inr 3" using top_count_exact[of 5] by simp
  have sel: "select_fewshot_examples lower sample shuffle s P 5 = Inr ?out"
    by (rule select_large_pool[OF _ tc]) (use assms(3) in simp_all)
  have mx: "similarity lower s ex \<le> similarity lower s (P ! 2)" for ex
  proof (cases "fset_of_list (tokenize_sentence (lower s)) = {||}")
    case True
    then show ?thesis by (simp add: similarity_no_tokens)
  next
    case False
    then show ?thesis using similarity_unit[of lower s ex]
      by (simp add: similarity_same_source[OF assms(4)])
  qed
  have one: "similarity lower s (P ! 2) = 1" if "tokenize_sentence (lower s) \<noteq> []"
  proof -
    from that have "fset_of_list (tokenize_sentence (lower s)) \<noteq> {||}"
      by (cases "tokenize_sentence (lower s)") simp_all
    then show ?thesis by (simp add: similarity_same_source[OF assms(4)])
  qed
  have i: "2 < length ?sc" using assms(3) by simp
  have sc2: "?sc ! 2 = (similarity lower s (P ! 2), P ! 2)" using assms(3) by simp
  have "\<forall>x\<in>set ?sc. fst x \<le> fst (?sc ! 2)"
    unfolding sc2 using mx by auto
  from max_key_in_prefix[OF i this] have "?sc ! 2 \<in> set (take 3 ?R)"
    by (simp add: numeral_3_eq_3)
  then have "snd (?sc ! 2) \<in> set ?top" by (simp only: set_map) (rule imageI)
  then have top: "P ! 2 \<in> set ?top" by (simp only: sc2 snd_conv)
  then have "P ! 2 \<in> set ?out"
    by (simp add: shuffle_contract_set[OF assms(2)])
  with sel tc top mx one ranked_examples_eq[of lower s P] show ?thesis by blast
qed

theorem identical_sentence_in_top_tranche_witness:
  "sample_contract (sample_prefix :: example list \<Rightarrow> nat \<Rightarrow> example list) \<and>
   shuffle_contract (shuffle_reverse :: example list \<Rightarrow> example list) \<and>
   length [\<lparr>bangla_speech = [2453], sylhet_bangla_speech = [2454]\<rparr>,
           \<lparr>bangla_speech = [2455], sylhet_bangla_speech = [2456]\<rparr>,
           \<lparr>bangla_speech = [2457], sylhet_bangla_speech = [2458]\<rparr>,
           \<lparr>bangla_speech = [2459], sylhet_bangla_speech = [2460]\<rparr>,
           \<lparr>bangla_speech = [2461], sylhet_bangla_speech = [2462]\<rparr>,
           \<lparr>bangla_speech = [2463], sylhet_bangla_speech = [2464]\<rparr>,
           \<lparr>bangla_speech = [2465], sylhet_bangla_speech = [2466]\<rparr>,
           \<lparr>bangla_speech = [2467], sylhet_bangla_speech = [2468]\<rparr>,
           \<lparr>bangla_speech = [2469], sylhet_bangla_speech = [2470]\<rparr>,
           \<lparr>bangla_speech = [2471], sylhet_bangla_speech = [2472]\<rparr>] = 10 \<and>
   bangla_speech ([\<lparr>bangla_speech = [2453], sylhet_bangla_speech = [2454]\<rparr>,
           \<lparr>bangla_speech = [2455], sylhet_bangla_speech = [2456]\<rparr>,
           \<lparr>bangla_speech = [2457], sylhet_bangla_speech = [2458]\<rparr>,
           \<lparr>bangla_speech = [2459], sylhet_bangla_speech = [2460]\<rparr>,
           \<lparr>bangla_speech = [2461], sylhet_bangla_speech = [2462]\<rparr>,
           \<lparr>bangla_speech = [2463], sylhet_bangla_speech = [2464]\<rparr>,
           \<lparr>bangla_speech = [2465], sylhet_bangla_speech = [2466]\<rparr>,
           \<lparr>bangla_speech = [2467], sylhet_bangla_speech = [2468]\<rparr>,
           \<lparr>bangla_speech = [2469], sylhet_bangla_speech = [2470]\<rparr>,
           \<lparr>bangla_speech = [2471], sylhet_bangla_speech = [2472]\<rparr>] ! 2) = [2457] \<and>
   (\<exists>out. select_fewshot_examples lower_ascii sample_prefix shuffle_reverse [2457]
          [\<lparr>bangla_speech = [2453], sylhet_bangla_speech = [2454]\<rparr>,
           \<lparr>bangla_speech = [2455], sylhet_bangla_speech = [2456]\<rparr>,
           \<lparr>bangla_speech = [2457], sylhet_bangla_speech = [2458]\<rparr>,
           \<lparr>bangla_speech = [2459], sylhet_bangla_speech = [2460]\<rparr>,
           \<lparr>bangla_speech = [2461], sylhet_bangla_speech = [2462]\<rparr>,
           \<lparr>bangla_speech = [2463], sylhet_bangla_speech = [2464]\<rparr>,
           \<lparr>bangla_speech = [2465], sylhet_bangla_speech = [2466]\<rparr>,
           \<lparr>bangla_speech = [2467], sylhet_bangla_speech = [2468]\<rparr>,
           \<lparr>bangla_speech = [2469], sylhet_bangla_speech = [2470]\<rparr>,
           \<lparr>bangla_speech = [2471], sylhet_bangla_speech = [2472]\<rparr>] 5 = Inr out \<and>
      \<lparr>bangla_speech = [2457], sylhet_bangla_speech = [2458]\<rparr> \<in> set out)"
proof -
  let ?P = "[\<lparr>bangla_speech = [2453], sylhet_bangla_speech = [2454]\<rparr>,
           \<lparr>bangla_speech = [2455], sylhet_bangla_speech = [2456]\<rparr>,
           \<lparr>bangla_speech = [2457], sylhet_bangla_speech = [2458]\<rparr>,
           \<lparr>bangla_speech = [2459], sylhet_bangla_speech = [2460]\<rparr>,
           \<lparr>bangla_speech = [2461], sylhet_bangla_speech = [2462]\<rparr>,
           \<lparr>bangla_speech = [2463], sylhet_bangla_speech = [2464]\<rparr>,
           \<lparr>bangla_speech = [2465], sylhet_bangla_speech = [2466]\<rparr>,
           \<lparr>bangla_speech = [2467], sylhet_bangla_speech = [2468]\<rparr>,
           \<lparr>bangla_speech = [2469], sylhet_bangla_speech = [2470]\<rparr>,
           \<lparr>bangla_speech = [2471::nat], sylhet_bangla_speech = [2472::nat]\<rparr>]"
  have l: "length ?P = 10" by simp
  have b: "bangla_speech (?P ! 2) = [2457]" by simp
  have p2: "?P ! 2 = \<lparr>bangla_speech = [2457], sylhet_bangla_speech = [2458]\<rparr>" by simp
  from identical_sentence_in_top_tranche[OF sample_prefix_contract shuffle_reverse_contract l b,
      of lower_ascii]
  have "\<exists>out. select_fewshot_examples lower_ascii sample_prefix shuffle_reverse [2457] ?P 5 = Inr out \<and>
      ?P ! 2 \<in> set out" by blast
  then have "\<exists>out. select_fewshot_examples lower_ascii sample_prefix shuffle_reverse [2457] ?P 5 = Inr out \<and>
      \<lparr>bangla_speech = [2457], sylhet_bangla_speech = [2458]\<rparr> \<in> set out"
    by (simp only: p2)
  with l b sample_prefix_contract[where ?'a = example] shuffle_reverse_contract[where ?'a = example]
  show ?thesis by (intro conjI)
qed

lemma py_sort_reverse_constant_key:
  assumes "\<forall>x\<in>set xs. key x = v"
  shows "py_sort_reverse key xs = xs"
proof -
  have "py_sort_reverse key xs = filter (\<lambda>x. key x = v) (py_sort_reverse key xs)"
    using assms by (simp add: filter_id_conv)
  also have "\<dots> = filter (\<lambda>x. key x = v) xs" by (rule py_sort_reverse_stable)
  also have "\<dots> = xs" using assms by (simp add: filter_id_conv)
  finally show ?thesis .
qed

text \<open>
  The place in the pool matters: what keeps the third example in the tranche of three is
  the stable sort, not its similarity alone.  In a pool of ten different examples that
  all have the sentence as their source, the fourth example \<open>P[3]\<close> has the largest
  similarity as well and is not in the tranche.
\<close>

lemma fourth_example_not_in_top_tranche:
  assumes "length P = 10" "distinct P" "\<forall>ex\<in>set P. bangla_speech ex = s"
  shows "\<exists>R. ranked_examples lower s P = Inr R \<and> P ! 3 \<notin> set (map snd (take 3 R))"
proof -
  let ?sc = "map (\<lambda>ex. (similarity lower s ex, ex)) P"
  let ?v = "if fset_of_list (tokenize_sentence (lower s)) = {||} then 0 else (1::rat)"
  have "\<forall>x\<in>set ?sc. fst x = ?v"
    using assms(3) by (auto simp: similarity_same_source)
  then have R: "py_sort_reverse fst ?sc = ?sc" by (rule py_sort_reverse_constant_key)
  have m: "map snd (take 3 ?sc) = take 3 P" by (simp add: take_map o_def)
  have n3: "P ! 3 \<notin> set (take 3 P)"
  proof
    assume "P ! 3 \<in> set (take 3 P)"
    then obtain j where j: "j < 3" "take 3 P ! j = P ! 3"
      using assms(1) by (auto simp: in_set_conv_nth)
    then have "P ! j = P ! 3" by simp
    with assms(1,2) j(1) show False by (simp add: nth_eq_iff_index_eq)
  qed
  have "P ! 3 \<notin> set (map snd (take 3 ?sc))" unfolding m by (rule n3)
  then show ?thesis unfolding ranked_examples_eq R by blast
qed

text \<open>
  C7 as stated gives example #3 the similarity 1.0.  For a pool whose third example has
  the source \<open>hello\<close> and the input sentence \<open>hello\<close>, neither has a token, and the
  similarity the selector computes for the third example is 0.
\<close>

theorem identical_sentence_similarity_counterexample:
  "length [\<lparr>bangla_speech = [2453], sylhet_bangla_speech = [2454]\<rparr>,
           \<lparr>bangla_speech = [2455], sylhet_bangla_speech = [2456]\<rparr>,
           \<lparr>bangla_speech = [104, 101, 108, 108, 111], sylhet_bangla_speech = [2458]\<rparr>,
           \<lparr>bangla_speech = [2459], sylhet_bangla_speech = [2460]\<rparr>,
           \<lparr>bangla_speech = [2461], sylhet_bangla_speech = [2462]\<rparr>,
           \<lparr>bangla_speech = [2463], sylhet_bangla_speech = [2464]\<rparr>,
           \<lparr>bangla_speech = [2465], sylhet_bangla_speech = [2466]\<rparr>,
           \<lparr>bangla_speech = [2467], sylhet_bangla_speech = [2468]\<rparr>,
           \<lparr>bangla_speech = [2469], sylhet_bangla_speech = [2470]\<rparr>,
           \<lparr>bangla_speech = [2471], sylhet_bangla_speech = [2472]\<rparr>] = 10 \<and>
   bangla_speech ([\<lparr>bangla_speech = [2453], sylhet_bangla_speech = [2454]\<rparr>,
           \<lparr>bangla_speech = [2455], sylhet_bangla_speech = [2456]\<rparr>,
           \<lparr>bangla_speech = [104, 101, 108, 108, 111], sylhet_bangla_speech = [2458]\<rparr>,
           \<lparr>bangla_speech = [2459], sylhet_bangla_speech = [2460]\<rparr>,
           \<lparr>bangla_speech = [2461], sylhet_bangla_speech = [2462]\<rparr>,
           \<lparr>bangla_speech = [2463], sylhet_bangla_speech = [2464]\<rparr>,
           \<lparr>bangla_speech = [2465], sylhet_bangla_speech = [2466]\<rparr>,
           \<lparr>bangla_speech = [2467], sylhet_bangla_speech = [2468]\<rparr>,
           \<lparr>bangla_speech = [2469], sylhet_bangla_speech = [2470]\<rparr>,
           \<lparr>bangla_speech = [2471], sylhet_bangla_speech = [2472]\<rparr>] ! 2) =
     [104, 101, 108, 108, 111] \<and>
   jaccard (fset_of_list (tokenize_sentence (lower_ascii [104, 101, 108, 108, 111])))
     (fset_of_list (tokenize_sentence (lower_ascii
        (bangla_speech \<lparr>bangla_speech = [104, 101, 108, 108, 111], sylhet_bangla_speech = [2458]\<rparr>)))) =
   Inr 0 \<and>
   (0::rat) \<noteq> 1"
  by (simp add: tokenize_sentence_def lower_ascii_def is_bangla_def jaccard_empty)

text \<open>
  C10.  For every sentence, pool \<open>P\<close> (a Python list has fewer than \<open>2 ^ 63\<close> elements) and
  count \<open>k >= 1\<close>, the selector returns exactly \<open>min(len(P), k)\<close> examples: when
  \<open>len(P) > k\<close>, the number \<open>n\<close> of top examples is between 1 and \<open>k\<close> and the remaining
  tranche holds at least \<open>k - n\<close> examples, so the sample is never cut short.
\<close>

theorem select_returns_min_count:
  assumes "sample_contract sample" "shuffle_contract shuffle"
    and "1 \<le> k" "length P < 2 ^ 63"
  shows "\<exists>out. select_fewshot_examples lower sample shuffle s P k = Inr out \<and>
     length out = min (length P) (nat k) \<and>
     (k < int (length P) \<longrightarrow>
        (\<exists>n R. top_count k = Inr n \<and> ranked_examples lower s P = Inr R \<and>
           1 \<le> n \<and> n \<le> nat k \<and> nat k - n \<le> length (drop n R)))"
proof (cases "k < int (length P)")
  case False
  then have "select_fewshot_examples lower sample shuffle s P k = Inr P"
    by (simp add: select_small_pool_eq)
  with False show ?thesis by simp
next
  case True
  from select_large_pool_result[OF assms(1,2,3) True assms(4), of lower s]
  obtain n R out where r: "top_count k = Inr n" "1 \<le> n" "int n \<le> k"
    "ranked_examples lower s P = Inr R" "length R = length P"
    "select_fewshot_examples lower sample shuffle s P k = Inr out" "length out = nat k"
    by blast
  have "length out = min (length P) (nat k)" using r(7) True by simp
  moreover have "n \<le> nat k" using r(3) by simp
  moreover have "nat k - n \<le> length (drop n R)" using r(5) True by simp
  ultimately show ?thesis using r by blast
qed

theorem select_returns_min_count_witness:
  "sample_contract (sample_prefix :: example list \<Rightarrow> nat \<Rightarrow> example list) \<and>
   shuffle_contract (shuffle_reverse :: example list \<Rightarrow> example list) \<and>
   (1::int) \<le> 2 \<and>
   length [\<lparr>bangla_speech = [2453], sylhet_bangla_speech = [2454]\<rparr>,
           \<lparr>bangla_speech = [2455], sylhet_bangla_speech = [2456]\<rparr>,
           \<lparr>bangla_speech = [2457], sylhet_bangla_speech = [2458]\<rparr>] < 2 ^ 63 \<and>
   (2::int) < int (length [\<lparr>bangla_speech = [2453], sylhet_bangla_speech = [2454]\<rparr>,
           \<lparr>bangla_speech = [2455], sylhet_bangla_speech = [2456]\<rparr>,
           \<lparr>bangla_speech = [2457], sylhet_bangla_speech = [2458]\<rparr>]) \<and>
   (\<exists>out. select_fewshot_examples lower_ascii sample_prefix shuffle_reverse [2455]
       [\<lparr>bangla_speech = [2453], sylhet_bangla_speech = [2454]\<rparr>,
        \<lparr>bangla_speech = [2455], sylhet_bangla_speech = [2456]\<rparr>,
        \<lparr>bangla_speech = [2457], sylhet_bangla_speech = [2458]\<rparr>] 2 = Inr out \<and>
      length out = 2)"
proof -
  have "(1::int) \<le> 2" by simp
  moreover have "length [\<lparr>bangla_speech = [2453], sylhet_bangla_speech = [2454]\<rparr>,
           \<lparr>bangla_speech = [2455], sylhet_bangla_speech = [2456]\<rparr>,
           \<lparr>bangla_speech = [2457::nat], sylhet_bangla_speech = [2458::nat]\<rparr>] < 2 ^ 63" by simp
  ultimately show ?thesis
    using select_returns_min_count[OF sample_prefix_contract shuffle_reverse_contract,
        of 2 "[\<lparr>bangla_speech = [2453], sylhet_bangla_speech = [2454]\<rparr>,
           \<lparr>bangla_speech = [2455], sylhet_bangla_speech = [2456]\<rparr>,
           \<lparr>bangla_speech = [2457], sylhet_bangla_speech = [2458]\<rparr>]" lower_ascii "[2455]"]
      sample_prefix_contract[where ?'a = example] shuffle_reverse_contract[where ?'a = example]
    by auto
qed

subsection \<open>Prompt composer\<close>

lemma examples_loop_eq:
  "examples_loop i acc exs =
     acc @ concat (map (\<lambda>j. example_lines (i + j) (exs ! j)) [0..<length exs])"
proof (induction exs arbitrary: i acc)
  case Nil
  show ?case by simp
next
  case (Cons e exs)
  have "[0..<length (e # exs)] = 0 # map Suc [0..<length exs]"
    by (simp only: length_Cons upt_conv_Cons zero_less_Suc map_Suc_upt)
  then show ?case by (simp add: Cons.IH o_def)
qed

lemma glossary_loop_eq:
  "glossary_loop i acc gl =
     acc @ concat (map (\<lambda>j. glossary_line (i + j) (gl ! j)) [0..<length gl])"
proof (induction gl arbitrary: i acc)
  case Nil
  show ?case by simp
next
  case (Cons e gl)
  have "[0..<length (e # gl)] = 0 # map Suc [0..<length gl]"
    by (simp only: length_Cons upt_conv_Cons zero_less_Suc map_Suc_upt)
  then show ?case by (simp add: Cons.IH o_def)
qed

lemma construct_prompt_eq:
  "construct_prompt s exs gl =
     system_instructions @ nl @ nl @
     str ''Few-shot examples:'' @ nl @
     concat (map (\<lambda>j. example_lines (Suc j) (exs ! j)) [0..<length exs]) @ nl @
     str ''Glossary:'' @ nl @
     concat (map (\<lambda>j. glossary_line (Suc j) (gl ! j)) [0..<length gl]) @ nl @ nl @
     str ''Bangla: '' @ s @ nl @ str ''Sylheti:''"
  by (simp add: construct_prompt_def examples_loop_eq glossary_loop_eq)

lemma sublist_concat_map_nth:
  assumes "i < n"
  shows "sublist (f i) (concat (map f [0..<n]))"
proof -
  have "[0..<n] = [0..<i] @ i # [Suc i..<n]"
    using assms by (metis le0 upt_add_eq_append upt_conv_Cons le_add_diff_inverse less_imp_le_nat add.commute)
  then have "concat (map f [0..<n]) = concat (map f [0..<i]) @ f i @ concat (map f [Suc i..<n])"
    by simp
  then show ?thesis by (simp only: sublist_appendI)
qed

lemma sublist_in_append: "sublist xs ys \<Longrightarrow> sublist xs (ps @ ys @ ss)"
proof -
  assume "sublist xs ys"
  then obtain a b where "ys = a @ xs @ b" by (auto simp: sublist_def)
  then have "ps @ ys @ ss = (ps @ a) @ xs @ (b @ ss)" by simp
  then show ?thesis by (simp only: sublist_appendI)
qed

text \<open>
  C9.  For every input sentence, the prompt composed from an empty example list and an
  empty glossary is the preamble, the two empty section headers and the echoed input; it
  is not empty and contains the preamble and the input sentence.  For all lists, every
  example and every glossary entry is rendered, by position, in the prompt; an example or
  an entry of empty strings is rendered with nothing between its labels.
\<close>

theorem construct_prompt_renders_everything:
  "construct_prompt s [] [] =
     system_instructions @ nl @ nl @ str ''Few-shot examples:'' @ nl @ nl @
     str ''Glossary:'' @ nl @ nl @ nl @ str ''Bangla: '' @ s @ nl @ str ''Sylheti:'' \<and>
   construct_prompt s [] [] \<noteq> [] \<and>
   sublist system_instructions (construct_prompt s [] []) \<and>
   sublist s (construct_prompt s [] []) \<and>
   (\<forall>i<length exs. sublist (example_lines (Suc i) (exs ! i)) (construct_prompt s exs gl)) \<and>
   (\<forall>i<length gl. sublist (glossary_line (Suc i) (gl ! i)) (construct_prompt s exs gl)) \<and>
   example_lines n \<lparr>bangla_speech = [], sylhet_bangla_speech = []\<rparr> =
     py_str_nat n @ str ''. Bangla: '' @ nl @ str ''   Sylheti: '' @ nl @ nl \<and>
   glossary_line n \<lparr>bangla = [], sylheti = []\<rparr> =
     py_str_nat n @ str ''. Bangla:  '' @ [0x2192] @ str '' Sylheti: '' @ nl"
proof -
  have e: "construct_prompt s [] [] =
     system_instructions @ nl @ nl @ str ''Few-shot examples:'' @ nl @ nl @
     str ''Glossary:'' @ nl @ nl @ nl @ str ''Bangla: '' @ s @ nl @ str ''Sylheti:''"
    by (simp add: construct_prompt_eq)
  have ne: "construct_prompt s [] [] \<noteq> []"
    unfolding e by (simp add: nl_def)
  have si: "sublist system_instructions (construct_prompt s [] [])"
    unfolding e by (rule sublist_append_rightI)
  have ss: "sublist s (construct_prompt s [] [])"
  proof -
    have h: "construct_prompt s [] [] =
      (system_instructions @ nl @ nl @ str ''Few-shot examples:'' @ nl @ nl @
       str ''Glossary:'' @ nl @ nl @ nl @ str ''Bangla: '') @ s @ (nl @ str ''Sylheti:'')"
      unfolding e by simp
    show ?thesis by (subst h) (rule sublist_appendI)
  qed
  have ex: "sublist (example_lines (Suc i) (exs ! i)) (construct_prompt s exs gl)"
    if "i < length exs" for i
  proof -
    have "sublist (example_lines (Suc i) (exs ! i))
        (concat (map (\<lambda>j. example_lines (Suc j) (exs ! j)) [0..<length exs]))"
      by (rule sublist_concat_map_nth[OF that, of "\<lambda>j. example_lines (Suc j) (exs ! j)"])
    from sublist_in_append[OF this,
        of "system_instructions @ nl @ nl @ str ''Few-shot examples:'' @ nl"
           "nl @ str ''Glossary:'' @ nl @
            concat (map (\<lambda>j. glossary_line (Suc j) (gl ! j)) [0..<length gl]) @ nl @ nl @
            str ''Bangla: '' @ s @ nl @ str ''Sylheti:''"]
    show ?thesis by (simp add: construct_prompt_eq)
  qed
  have gz: "sublist (glossary_line (Suc i) (gl ! i)) (construct_prompt s exs gl)"
    if "i < length gl" for i
  proof -
    have "sublist (glossary_line (Suc i) (gl ! i))
        (concat (map (\<lambda>j. glossary_line (Suc j) (gl ! j)) [0..<length gl]))"
      by (rule sublist_concat_map_nth[OF that, of "\<lambda>j. glossary_line (Suc j) (gl ! j)"])
    from sublist_in_append[OF this,
        of "system_instructions @ nl @ nl @ str ''Few-shot examples:'' @ nl @
            concat (map (\<lambda>j. example_lines (Suc j) (exs ! j)) [0..<length exs]) @ nl @
            str ''Glossary:'' @ nl"
           "nl @ nl @ str ''Bangla: '' @ s @ nl @ str ''Sylheti:''"]
    show ?thesis by (simp add: construct_prompt_eq)
  qed
  have el: "example_lines n \<lparr>bangla_speech = [], sylhet_bangla_speech = []\<rparr> =
     py_str_nat n @ str ''. Bangla: '' @ nl @ str ''   Sylheti: '' @ nl @ nl"
    by (simp add: example_lines_def)
  have gl: "glossary_line n \<lparr>bangla = [], sylheti = []\<rparr> =
     py_str_nat n @ str ''. Bangla:  '' @ [0x2192] @ str '' Sylheti: '' @ nl"
    by (simp add: glossary_line_def str_def)
  from e ne si ss ex gz el gl show ?thesis by blast
qed

theorem construct_prompt_renders_everything_witness:
  "(0::nat) < length [\<lparr>bangla_speech = [], sylhet_bangla_speech = []\<rparr>] \<and>
   sublist (str ''1. Bangla: '' @ nl @ str ''   Sylheti: '' @ nl @ nl)
     (construct_prompt [2476, 2439] [\<lparr>bangla_speech = [], sylhet_bangla_speech = []\<rparr>]
        [\<lparr>bangla = [], sylheti = []\<rparr>]) \<and>
   sublist (str ''1. Bangla:  '' @ [0x2192] @ str '' Sylheti: '' @ nl)
     (construct_prompt [2476, 2439] [\<lparr>bangla_speech = [], sylhet_bangla_speech = []\<rparr>]
        [\<lparr>bangla = [], sylheti = []\<rparr>]) \<and>
   sublist [2476, 2439] (construct_prompt [2476, 2439] ([] :: example list) ([] :: glossary_entry list))"
proof -
  note t = construct_prompt_renders_everything[of "[2476, 2439]"
      "[\<lparr>bangla_speech = [], sylhet_bangla_speech = []\<rparr>]" "[\<lparr>bangla = [], sylheti = []\<rparr>]" 1]
  have n1: "py_str_nat 1 = str ''1''" by (simp add: str_def)
  note r = t[THEN conjunct2, THEN conjunct2, THEN conjunct2, THEN conjunct2]
  from r[THEN conjunct1] have a: "\<forall>i<length [\<lparr>bangla_speech = [], sylhet_bangla_speech = []\<rparr>].
      sublist (example_lines (Suc i) ([\<lparr>bangla_speech = [], sylhet_bangla_speech = []\<rparr>] ! i))
     (construct_prompt [2476, 2439] [\<lparr>bangla_speech = [], sylhet_bangla_speech = []\<rparr>]
        [\<lparr>bangla = [], sylheti = []\<rparr>])" .
  from r[THEN conjunct2, THEN conjunct1] have b: "\<forall>i<length [\<lparr>bangla = [], sylheti = []\<rparr>].
      sublist (glossary_line (Suc i) ([\<lparr>bangla = [], sylheti = []\<rparr>] ! i))
     (construct_prompt [2476, 2439] [\<lparr>bangla_speech = [], sylhet_bangla_speech = []\<rparr>]
        [\<lparr>bangla = [], sylheti = []\<rparr>])" .
  from r[THEN conjunct2, THEN conjunct2, THEN conjunct1] r[THEN conjunct2, THEN conjunct2, THEN conjunct2]
  have c: "example_lines 1 \<lparr>bangla_speech = [], sylhet_bangla_speech = []\<rparr> =
     py_str_nat 1 @ str ''. Bangla: '' @ nl @ str ''   Sylheti: '' @ nl @ nl"
    and d: "glossary_line 1 \<lparr>bangla = [], sylheti = []\<rparr> =
     py_str_nat 1 @ str ''. Bangla:  '' @ [0x2192] @ str '' Sylheti: '' @ nl"
    by simp_all
  have c': "example_lines 1 \<lparr>bangla_speech = [], sylhet_bangla_speech = []\<rparr> =
     str ''1. Bangla: '' @ nl @ str ''   Sylheti: '' @ nl @ nl"
    unfolding c n1 by (simp add: str_def)
  have d': "glossary_line 1 \<lparr>bangla = [], sylheti = []\<rparr> =
     str ''1. Bangla:  '' @ [0x2192] @ str '' Sylheti: '' @ nl"
    unfolding d n1 by (simp add: str_def)
  from a have "sublist (example_lines 1 \<lparr>bangla_speech = [], sylhet_bangla_speech = []\<rparr>)
     (construct_prompt [2476, 2439] [\<lparr>bangla_speech = [], sylhet_bangla_speech = []\<rparr>]
        [\<lparr>bangla = [], sylheti = []\<rparr>])" by simp
  then have 1: "sublist (str ''1. Bangla: '' @ nl @ str ''   Sylheti: '' @ nl @ nl)
     (construct_prompt [2476, 2439] [\<lparr>bangla_speech = [], sylhet_bangla_speech = []\<rparr>]
        [\<lparr>bangla = [], sylheti = []\<rparr>])" by (simp only: c')
  from b have "sublist (glossary_line 1 \<lparr>bangla = [], sylheti = []\<rparr>)
     (construct_prompt [2476, 2439] [\<lparr>bangla_speech = [], sylhet_bangla_speech = []\<rparr>]
        [\<lparr>bangla = [], sylheti = []\<rparr>])" by simp
  then have 2: "sublist (str ''1. Bangla:  '' @ [0x2192] @ str '' Sylheti: '' @ nl)
     (construct_prompt [2476, 2439] [\<lparr>bangla_speech = [], sylhet_bangla_speech = []\<rparr>]
        [\<lparr>bangla = [], sylheti = []\<rparr>])" by (simp only: d')
  from construct_prompt_renders_everything[of "[2476, 2439]" "[] :: example list"
      "[] :: glossary_entry list" 1, THEN conjunct2, THEN conjunct2, THEN conjunct2, THEN conjunct1]
  have 3: "sublist [2476, 2439]
     (construct_prompt [2476, 2439] ([] :: example list) ([] :: glossary_entry list))" .
  have 0: "(0::nat) < length [\<lparr>bangla_speech = [], sylhet_bangla_speech = []\<rparr>]" by simp
  from 0 1 2 3 show ?thesis by (intro conjI)
qed

end
